theory Spec2Isabelle
  imports Main "HOL-Library.Sublist"
begin

section \<open>Text primitives of the import-path fixer\<close>

text \<open>
  The scripts work on Python \<open>str\<close> values. A text is modelled as a \<open>string\<close>
  (a list of characters); every character the scripts inspect is ASCII. The three
  characters that cannot be written inside a HOL string literal get names.
\<close>

abbreviation squote :: char where "squote \<equiv> CHR 0x27"
abbreviation dquote :: char where "dquote \<equiv> CHR 0x22"
abbreviation backslash :: char where "backslash \<equiv> CHR 0x5C"

text \<open>\<^verbatim>\<open>target_filename = 'medicaid_rules_2025.json'\<close> (fix_json_imports.py, line 5).\<close>

definition target_filename :: string where
  "target_filename = ''medicaid_rules_2025.json''"

subsection \<open>\<open>str.replace\<close>\<close>

text \<open>
  \<open>s.replace(old, new)\<close> replaces every non-overlapping occurrence of \<open>old\<close>, scanning
  from the left; after a replacement the scan continues behind the replaced occurrence.
  With an empty \<open>old\<close> Python inserts \<open>new\<close> before every character and at the end.
\<close>

function str_replace :: "string \<Rightarrow> string \<Rightarrow> string \<Rightarrow> string" where
  "str_replace old new s =
     (if old = [] then new @ concat (map (\<lambda>c. c # new) s)
      else (case s of
              [] \<Rightarrow> []
            | c # cs \<Rightarrow>
                if prefix old s then new @ str_replace old new (drop (length old) s)
                else c # str_replace old new cs))"
  by pat_completeness auto
termination
  by (relation "measure (\<lambda>(old, new, s). length s)") auto

declare str_replace.simps [simp del]

subsection \<open>The compiled pattern\<close>

text \<open>
  \<^verbatim>\<open>require\((['"])([^'"]*?)medicaid_rules_2025\.json(['"])\)\<close>:
  the literal \<open>require(\<close>, group 1 (one quote character), group 2 (a lazy run of
  characters that are not quotes), the escaped target file name, group 3 (one quote
  character) and the literal \<open>)\<close>. Group 3 is a character class of its own, not a
  back-reference to group 1.
\<close>

definition is_quote :: "char \<Rightarrow> bool" where
  "is_quote c \<longleftrightarrow> c = squote \<or> c = dquote"

definition non_quotes :: "string \<Rightarrow> bool" where
  "non_quotes s = list_all (\<lambda>c. \<not> is_quote c) s"

text \<open>A match object: \<open>group(0)\<close> is the whole matched text.\<close>

record rmatch =
  group0 :: string
  group1 :: string
  group2 :: string
  group3 :: string

text \<open>Matching a literal at the head of the text; the result is the text behind it.\<close>

fun strip_prefix :: "string \<Rightarrow> string \<Rightarrow> string option" where
  "strip_prefix [] s = Some s"
| "strip_prefix (p # ps) [] = None"
| "strip_prefix (p # ps) (c # cs) = (if p = c then strip_prefix ps cs else None)"

text \<open>What follows group 2: the file name, the closing quote class and \<open>)\<close>.\<close>

definition match_tail :: "string \<Rightarrow> (char \<times> string) option" where
  "match_tail s =
     (case strip_prefix target_filename s of
        None \<Rightarrow> None
      | Some s1 \<Rightarrow>
          (case s1 of
             q # c # rest \<Rightarrow> if is_quote q \<and> c = CHR '')'' then Some (q, rest) else None
           | _ \<Rightarrow> None))"

text \<open>
  The lazy quantifier \<^verbatim>\<open>[^'"]*?\<close>: first try to match the rest of the pattern here;
  only when that fails consume one more character of the class and try again.
\<close>

fun lazy_path :: "string \<Rightarrow> (string \<times> char \<times> string) option" where
  "lazy_path [] = None"
| "lazy_path (c # cs) =
     (case match_tail (c # cs) of
        Some (q, rest) \<Rightarrow> Some ([], q, rest)
      | None \<Rightarrow>
          if is_quote c then None
          else map_option (\<lambda>(p, q, rest). (c # p, q, rest)) (lazy_path cs))"

text \<open>The literal head of the pattern, \<^verbatim>\<open>require\(\<close>.\<close>

definition require_open :: string where
  "require_open = ''require(''"

text \<open>The pattern anchored at the head of the text: the match and the text behind it.\<close>

definition match_at :: "string \<Rightarrow> (rmatch \<times> string) option" where
  "match_at s =
     (case strip_prefix require_open s of
        None \<Rightarrow> None
      | Some s1 \<Rightarrow>
          (case s1 of
             [] \<Rightarrow> None
           | q1 # s2 \<Rightarrow>
               if \<not> is_quote q1 then None
               else (case lazy_path s2 of
                       None \<Rightarrow> None
                     | Some (p, q2, rest) \<Rightarrow>
                         Some (\<lparr>group0 = require_open @ q1 # p @ target_filename @ [q2, CHR '')''],
                                 group1 = [q1], group2 = p, group3 = [q2]\<rparr>, rest))))"

lemma strip_prefix_Some: "strip_prefix p s = Some r \<longleftrightarrow> s = p @ r"
  by (induction p s rule: strip_prefix.induct) auto

lemma strip_prefix_append [simp]: "strip_prefix p (p @ r) = Some r"
  by (simp add: strip_prefix_Some)

lemma match_tail_Some:
  "match_tail s = Some (q, rest) \<longleftrightarrow> s = target_filename @ q # CHR '')'' # rest \<and> is_quote q"
  by (auto simp: match_tail_def strip_prefix_Some split: option.splits list.splits)

lemma match_tail_length: "match_tail s = Some (q, rest) \<Longrightarrow> length rest < length s"
  by (simp add: match_tail_Some)

lemma lazy_path_length: "lazy_path s = Some (p, q, rest) \<Longrightarrow> length rest < length s"
proof (induction s arbitrary: p)
  case Nil
  then show ?case by simp
next
  case (Cons c cs)
  show ?case
  proof (cases "match_tail (c # cs)")
    case None
    with Cons.prems obtain p' where "lazy_path cs = Some (p', q, rest)"
      by (auto split: if_splits)
    from Cons.IH [OF this] show ?thesis by simp
  next
    case (Some a)
    with Cons.prems have "match_tail (c # cs) = Some (q, rest)"
      by (auto split: prod.splits)
    from match_tail_length [OF this] show ?thesis .
  qed
qed

lemma match_at_length: "match_at s = Some (m, rest) \<Longrightarrow> length rest < length s"
  by (auto simp: match_at_def strip_prefix_Some
      split: option.splits list.splits if_splits dest: lazy_path_length)

text \<open>
  \<open>pattern.finditer(content)\<close>: the non-overlapping matches from left to right. The
  search tries the pattern at each position in turn and resumes behind a match.
\<close>

function finditer :: "string \<Rightarrow> rmatch list" where
  "finditer [] = []"
| "finditer (c # cs) =
     (case match_at (c # cs) of
        Some (m, rest) \<Rightarrow> m # finditer rest
      | None \<Rightarrow> finditer cs)"
  by pat_completeness auto
termination
  by (relation "measure length") (auto dest: match_at_length)

section \<open>What the pattern matches\<close>

lemma non_quotes_target [simp]: "non_quotes target_filename"
  by (simp add: non_quotes_def target_filename_def is_quote_def)

lemma non_quotes_append [simp]: "non_quotes (a @ b) \<longleftrightarrow> non_quotes a \<and> non_quotes b"
  by (simp add: non_quotes_def)

lemma non_quotes_Cons [simp]: "non_quotes (c # a) \<longleftrightarrow> \<not> is_quote c \<and> non_quotes a"
  by (simp add: non_quotes_def)

lemma non_quotes_Nil [simp]: "non_quotes []"
  by (simp add: non_quotes_def)

text \<open>The first quote character of a text splits it in one way only.\<close>

lemma first_quote_unique:
  assumes "non_quotes a" "non_quotes b" "is_quote x" "is_quote y" "a @ x # r = b @ y # r'"
  shows "a = b \<and> x = y \<and> r = r'"
  using assms
proof (induction a arbitrary: b)
  case Nil
  then show ?case by (cases b) auto
next
  case (Cons c a)
  then show ?case by (cases b) auto
qed

lemma match_tail_None_path:
  assumes "non_quotes (c # p)" "is_quote q"
  shows "match_tail (c # p @ target_filename @ q # r) = None"
proof (rule ccontr)
  assume "match_tail (c # p @ target_filename @ q # r) \<noteq> None"
  then obtain q' rest where "match_tail (c # p @ target_filename @ q # r) = Some (q', rest)"
    by auto
  then have eq: "(c # p @ target_filename) @ q # r = target_filename @ q' # CHR '')'' # rest"
    and q': "is_quote q'"
    by (simp_all add: match_tail_Some)
  from assms have "non_quotes (c # p @ target_filename)" by simp
  from first_quote_unique [OF this non_quotes_target assms(2) q' eq]
  have "c # p @ target_filename = target_filename" by simp
  then have "length (c # p @ target_filename) = length target_filename" by simp
  then show False by simp
qed

lemma lazy_path_exact:
  assumes "non_quotes p" "is_quote q"
  shows "lazy_path (p @ target_filename @ q # CHR '')'' # rest) = Some (p, q, rest)"
  using assms(1)
proof (induction p)
  case Nil
  have "match_tail (target_filename @ q # CHR '')'' # rest) = Some (q, rest)"
    using assms(2) by (simp add: match_tail_Some)
  moreover obtain t ts where "target_filename @ q # CHR '')'' # rest = t # ts"
    by (cases "target_filename @ q # CHR '')'' # rest") auto
  ultimately show ?case by simp
next
  case (Cons c p)
  then have "match_tail (c # p @ target_filename @ q # CHR '')'' # rest) = None"
    using assms(2) by (intro match_tail_None_path) auto
  with Cons show ?case by simp
qed

lemma match_at_exact:
  assumes "is_quote q1" "non_quotes p" "is_quote q2"
  shows "match_at (require_open @ q1 # p @ target_filename @ q2 # CHR '')'' # rest) =
    Some (\<lparr>group0 = require_open @ q1 # p @ target_filename @ [q2, CHR '')''],
            group1 = [q1], group2 = p, group3 = [q2]\<rparr>, rest)"
  unfolding match_at_def using assms by (simp add: lazy_path_exact)

text \<open>
  C5. The pattern accepts \<open>require(<quote>...<target file name><quote>)\<close> where the
  opening and the closing quote are chosen independently among the single and the double
  quote: whenever both are quote characters and the text between the opening quote and
  the file name holds no quote, the pattern matches, with the two quotes as groups 1
  and 3. In particular it matches texts whose two quote characters differ.
\<close>

theorem pattern_quotes_independent:
  "is_quote q1 \<and> is_quote q2 \<and> non_quotes p \<longrightarrow>
     (\<exists>m. match_at (require_open @ q1 # p @ target_filename @ q2 # CHR '')'' # rest) = Some (m, rest)
        \<and> group1 m = [q1] \<and> group3 m = [q2]
        \<and> group0 m = require_open @ q1 # p @ target_filename @ [q2, CHR '')''])"
  by (simp add: match_at_exact)

theorem pattern_quotes_independent_witness:
  "dquote \<noteq> squote \<and>
   (\<exists>m. match_at (require_open @ dquote # ''../old/'' @ target_filename @ squote # '')'' @ [])
          = Some (m, [])
      \<and> group1 m = [dquote] \<and> group3 m = [squote])"
  using pattern_quotes_independent [of dquote squote "''../old/''" "[]"]
  by (auto simp add: is_quote_def non_quotes_def)

section \<open>Path arithmetic (\<open>os.path\<close> on a POSIX host)\<close>

text \<open>
  \<open>calculate_relative_path\<close> is built from \<open>os.path.abspath\<close>, \<open>os.path.dirname\<close>
  and \<open>os.path.relpath\<close>. They are modelled after CPython's \<open>posixpath\<close> module
  (the separator is \<open>/\<close>), working on text only. The current working directory, which
  \<open>os.getcwd()\<close> reads from the process, is the explicit parameter \<open>cwd\<close>.
\<close>

datatype error = ValueError | ReadFailed string | WriteFailed string

text \<open>\<open>s.split('/')\<close>: the pieces between separators; a text without one is one piece.\<close>

fun split_sep :: "string \<Rightarrow> string list" where
  "split_sep [] = [[]]"
| "split_sep (c # cs) =
     (if c = CHR ''/'' then [] # split_sep cs
      else (case split_sep cs of
              [] \<Rightarrow> [[c]]
            | w # ws \<Rightarrow> (c # w) # ws))"

text \<open>\<open>'/'.join(comps)\<close>.\<close>

fun join_sep :: "string list \<Rightarrow> string" where
  "join_sep [] = []"
| "join_sep [w] = w"
| "join_sep (w # v # ws) = w @ CHR ''/'' # join_sep (v # ws)"

definition lstrip_sep :: "string \<Rightarrow> string" where
  "lstrip_sep s = dropWhile (\<lambda>c. c = CHR ''/'') s"

definition rstrip_sep :: "string \<Rightarrow> string" where
  "rstrip_sep s = rev (dropWhile (\<lambda>c. c = CHR ''/'') (rev s))"

text \<open>\<open>posixpath.join(a, b)\<close> for one further component.\<close>

definition path_join :: "string \<Rightarrow> string \<Rightarrow> string" where
  "path_join a b =
     (if prefix ''/'' b then b
      else if a = [] \<or> suffix ''/'' a then a @ b
      else a @ ''/'' @ b)"

text \<open>
  The body of the loop of \<open>posixpath.normpath\<close> over the components: empty and \<open>.\<close>
  components are skipped; \<open>..\<close> removes the component before it, is kept when there is
  nothing to remove in a relative path, and is dropped at the root.
\<close>

definition norm_step :: "bool \<Rightarrow> string list \<Rightarrow> string \<Rightarrow> string list" where
  "norm_step has_root new_comps part =
     (if part = [] \<or> part = ''.'' then new_comps
      else if part \<noteq> ''..'' \<or> (\<not> has_root \<and> new_comps = [])
              \<or> (new_comps \<noteq> [] \<and> last new_comps = ''..'')
        then new_comps @ [part]
      else if new_comps \<noteq> [] then butlast new_comps
      else new_comps)"

text \<open>The number of leading slashes \<open>normpath\<close> keeps: two when there are exactly two.\<close>

definition initial_slashes :: "string \<Rightarrow> nat" where
  "initial_slashes path =
     (if prefix ''/'' path
      then (if prefix ''//'' path \<and> \<not> prefix ''///'' path then 2 else 1)
      else 0)"

definition normpath :: "string \<Rightarrow> string" where
  "normpath path =
     (if path = [] then ''.''
      else
        let n = initial_slashes path;
            comps = foldl (norm_step (n \<noteq> 0)) [] (split_sep path);
            p = replicate n CHR ''/'' @ join_sep comps
        in if p = [] then ''.'' else p)"

definition abspath :: "string \<Rightarrow> string \<Rightarrow> string" where
  "abspath cwd path =
     normpath (if prefix ''/'' path then path else path_join cwd path)"

text \<open>\<open>posixpath.dirname\<close>: \<open>head\<close> is the text up to and including the last separator.\<close>

definition dirname :: "string \<Rightarrow> string" where
  "dirname p =
     (let head = rev (dropWhile (\<lambda>c. c \<noteq> CHR ''/'') (rev p))
      in if head \<noteq> [] \<and> head \<noteq> replicate (length head) CHR ''/'' then rstrip_sep head
         else head)"

text \<open>\<open>posixpath.basename\<close>: the text behind the last separator.\<close>

definition basename :: "string \<Rightarrow> string" where
  "basename p = rev (takeWhile (\<lambda>c. c \<noteq> CHR ''/'') (rev p))"

text \<open>
  \<open>posixpath.relpath(path, start)\<close>. It raises \<open>ValueError\<close> on an empty \<open>path\<close>;
  \<open>commonprefix\<close> of the two component lists is their longest common prefix.
\<close>

definition path_components :: "string \<Rightarrow> string list" where
  "path_components p = (let tail = lstrip_sep p in if tail = [] then [] else split_sep tail)"

definition relpath :: "string \<Rightarrow> string \<Rightarrow> string \<Rightarrow> error + string" where
  "relpath cwd path start =
     (if path = [] then Inl ValueError
      else
        let start_list = path_components (abspath cwd start);
            path_list = path_components (abspath cwd path);
            i = length (longest_common_prefix start_list path_list);
            rel_list = replicate (length start_list - i) ''..'' @ drop i path_list
        in if rel_list = [] then Inr ''.'' else Inr (join_sep rel_list))"

text \<open>
  \<open>calculate_relative_path\<close> (fix_json_imports.py, lines 9 to 13). The final
  \<open>replace('\\', '/')\<close> turns every backslash of the relative path into a slash.
\<close>

definition calculate_relative_path :: "string \<Rightarrow> string \<Rightarrow> string \<Rightarrow> error + string" where
  "calculate_relative_path cwd from_file to_file =
     (let from_dir = dirname (abspath cwd from_file);
          to_abs = abspath cwd to_file
      in case relpath cwd to_abs from_dir of
           Inl e \<Rightarrow> Inl e
         | Inr relative_path \<Rightarrow> Inr (str_replace [backslash] ''/'' relative_path))"

section \<open>The computed relative path\<close>

lemma str_replace_char:
  "str_replace [a] [b] s = map (\<lambda>x. if x = a then b else x) s"
proof (induction s)
  case Nil
  show ?case by (simp add: str_replace.simps)
next
  case (Cons c cs)
  then show ?case
    by (subst str_replace.simps) auto
qed

lemma normpath_nonempty: "normpath p \<noteq> []"
  by (simp add: normpath_def Let_def)

lemma abspath_nonempty: "abspath cwd p \<noteq> []"
  by (simp add: abspath_def normpath_nonempty)

lemma relpath_returns:
  "path \<noteq> [] \<Longrightarrow> \<exists>r. relpath cwd path start = Inr r"
  by (simp add: relpath_def Let_def)

lemma calculate_relative_path_eq:
  "\<exists>rel. relpath cwd (abspath cwd to_file) (dirname (abspath cwd from_file)) = Inr rel
     \<and> calculate_relative_path cwd from_file to_file
         = Inr (map (\<lambda>x. if x = backslash then CHR ''/'' else x) rel)"
proof -
  obtain rel where "relpath cwd (abspath cwd to_file) (dirname (abspath cwd from_file)) = Inr rel"
    using relpath_returns [OF abspath_nonempty] by blast
  then show ?thesis
    by (simp add: calculate_relative_path_def str_replace_char)
qed

text \<open>
  C6. For every pair of inputs (and every working directory) \<open>calculate_relative_path\<close>
  returns a text, and that text holds no backslash: it is the relative path computed by
  \<open>os.path.relpath\<close> with every backslash turned into a forward slash.
\<close>

theorem relative_path_has_no_backslash:
  "\<exists>rel r. relpath cwd (abspath cwd to_file) (dirname (abspath cwd from_file)) = Inr rel
     \<and> calculate_relative_path cwd from_file to_file = Inr r
     \<and> r = map (\<lambda>x. if x = backslash then CHR ''/'' else x) rel
     \<and> backslash \<notin> set r"
proof -
  obtain rel where rel: "relpath cwd (abspath cwd to_file) (dirname (abspath cwd from_file)) = Inr rel"
    and c: "calculate_relative_path cwd from_file to_file
         = Inr (map (\<lambda>x. if x = backslash then CHR ''/'' else x) rel)"
    using calculate_relative_path_eq by blast
  have "backslash \<notin> set (map (\<lambda>x. if x = backslash then CHR ''/'' else x) rel)"
    by auto
  with rel c show ?thesis by blast
qed

theorem relative_path_has_no_backslash_witness:
  "calculate_relative_path ''/srv'' ''lib/x.js'' (''/srv/d'' @ [backslash] @ ''e'') = Inr ''../d/e''
   \<and> backslash \<notin> set ''../d/e''"
proof -
  have e: "calculate_relative_path ''/srv'' ''lib/x.js'' (''/srv/d'' @ [backslash] @ ''e'')
      = Inr ''../d/e''"
    by code_simp
  from relative_path_has_no_backslash [of "''/srv''" "''/srv/d'' @ [backslash] @ ''e''" "''lib/x.js''"]
  obtain r where "calculate_relative_path ''/srv'' ''lib/x.js'' (''/srv/d'' @ [backslash] @ ''e'') = Inr r"
    and "backslash \<notin> set r"
    by blast
  with e show ?thesis by simp
qed

section \<open>Round trip of the relative path\<close>

text \<open>
  Proof vocabulary: \<open>proper\<close> components are what a joined path splits back into;
  \<open>clean\<close> components are those of a normalised absolute path; \<open>real_parts\<close> are
  the components \<open>normpath\<close> does not skip.
\<close>

definition proper :: "string list \<Rightarrow> bool" where
  "proper comps \<longleftrightarrow> (\<forall>w\<in>set comps. w \<noteq> [] \<and> w \<noteq> ''.'' \<and> CHR ''/'' \<notin> set w)"

definition clean :: "string list \<Rightarrow> bool" where
  "clean comps \<longleftrightarrow> proper comps \<and> ''..'' \<notin> set comps"

definition real_parts :: "string \<Rightarrow> string list" where
  "real_parts s = filter (\<lambda>w. w \<noteq> [] \<and> w \<noteq> ''.'') (split_sep s)"

lemma split_sep_not_Nil [simp]: "split_sep s \<noteq> []"
  by (induction s) (auto split: list.splits)

lemma split_sep_slash [simp]: "split_sep (CHR ''/'' # s) = [] # split_sep s"
  by simp

lemma split_sep_append: "split_sep (a @ CHR ''/'' # b) = split_sep a @ split_sep b"
proof (induction a)
  case Nil
  show ?case by simp
next
  case (Cons c a)
  obtain w ws where "split_sep a = w # ws"
    by (cases "split_sep a") auto
  with Cons show ?case by simp
qed

lemma split_sep_no_slash: "CHR ''/'' \<notin> set w \<Longrightarrow> split_sep w = [w]"
  by (induction w) auto

lemma split_sep_join:
  "comps \<noteq> [] \<Longrightarrow> \<forall>w\<in>set comps. CHR ''/'' \<notin> set w \<Longrightarrow> split_sep (join_sep comps) = comps"
proof (induction comps rule: join_sep.induct)
  case 1
  then show ?case by simp
next
  case (2 w)
  then show ?case by (simp add: split_sep_no_slash)
next
  case (3 w v ws)
  then show ?case by (simp add: split_sep_append split_sep_no_slash)
qed

lemma join_sep_snoc: "comps \<noteq> [] \<Longrightarrow> join_sep (comps @ [c]) = join_sep comps @ CHR ''/'' # c"
  by (induction comps rule: join_sep.induct) auto

lemma proper_simps [simp]:
  "proper []"
  "proper (w # ws) \<longleftrightarrow> w \<noteq> [] \<and> w \<noteq> ''.'' \<and> CHR ''/'' \<notin> set w \<and> proper ws"
  "proper (xs @ ys) \<longleftrightarrow> proper xs \<and> proper ys"
  by (auto simp: proper_def)

lemma clean_simps [simp]:
  "clean []"
  "clean (w # ws) \<longleftrightarrow> w \<noteq> [] \<and> w \<noteq> ''.'' \<and> w \<noteq> ''..'' \<and> CHR ''/'' \<notin> set w \<and> clean ws"
  "clean (xs @ ys) \<longleftrightarrow> clean xs \<and> clean ys"
  by (auto simp: clean_def)

lemma clean_proper: "clean comps \<Longrightarrow> proper comps"
  by (simp add: clean_def)

lemma proper_sub: "proper comps \<Longrightarrow> proper (drop i comps)" "proper comps \<Longrightarrow> proper (take i comps)"
  by (auto simp: proper_def dest: in_set_dropD in_set_takeD)

lemma clean_sub: "clean comps \<Longrightarrow> clean (drop i comps)" "clean comps \<Longrightarrow> clean (take i comps)"
  "clean comps \<Longrightarrow> clean (butlast comps)"
  by (auto simp: clean_def proper_def dest: in_set_dropD in_set_takeD in_set_butlastD)

lemma join_sep_head:
  "proper comps \<Longrightarrow> comps \<noteq> [] \<Longrightarrow> join_sep comps \<noteq> [] \<and> hd (join_sep comps) \<noteq> CHR ''/''"
  by (induction comps rule: join_sep.induct) (auto simp: neq_Nil_conv)

lemma join_sep_last:
  "proper comps \<Longrightarrow> comps \<noteq> [] \<Longrightarrow> join_sep comps \<noteq> [] \<and> last (join_sep comps) \<noteq> CHR ''/''"
proof (induction comps rule: join_sep.induct)
  case 1
  then show ?case by simp
next
  case (2 w)
  then have "w \<noteq> []" "CHR ''/'' \<notin> set w" by simp_all
  then show ?case by (metis last_in_set join_sep.simps(2))
next
  case (3 w v ws)
  then have "join_sep (v # ws) \<noteq> [] \<and> last (join_sep (v # ws)) \<noteq> CHR ''/''" by simp
  then show ?case by simp
qed

lemma real_parts_append: "real_parts (a @ CHR ''/'' # b) = real_parts a @ real_parts b"
  by (simp add: real_parts_def split_sep_append)

lemma real_parts_slashes [simp]: "real_parts (replicate n CHR ''/'' @ s) = real_parts s"
  by (induction n) (simp_all add: real_parts_def)

lemma real_parts_Nil [simp]: "real_parts [] = []"
  by (simp add: real_parts_def)

lemma real_parts_dot [simp]: "real_parts ''.'' = []"
  by (simp add: real_parts_def)

lemma real_parts_join: "proper comps \<Longrightarrow> real_parts (join_sep comps) = comps"
proof (cases "comps = []")
  case True
  then show ?thesis by simp
next
  case False
  assume p: "proper comps"
  then have "split_sep (join_sep comps) = comps"
    using False by (intro split_sep_join) (auto simp: proper_def)
  moreover have "filter (\<lambda>w. w \<noteq> [] \<and> w \<noteq> ''.'') comps = comps"
    using p by (auto simp: proper_def filter_id_conv)
  ultimately show ?thesis by (simp add: real_parts_def)
qed


lemma foldl_norm_skip:
  "foldl (norm_step h) acc xs = foldl (norm_step h) acc (filter (\<lambda>w. w \<noteq> [] \<and> w \<noteq> ''.'') xs)"
  by (induction xs arbitrary: acc) (auto simp: norm_step_def)

lemma normpath_abs:
  assumes "prefix ''/'' path"
  shows "normpath path = replicate (initial_slashes path) CHR ''/''
              @ join_sep (foldl (norm_step True) [] (real_parts path))"
proof -
  from assms have ne: "path \<noteq> []" by auto
  from assms have n: "initial_slashes path = 1 \<or> initial_slashes path = 2"
    by (simp add: initial_slashes_def)
  then have t: "(initial_slashes path \<noteq> 0) = True" by auto
  have f: "foldl (norm_step True) [] (split_sep path) = foldl (norm_step True) [] (real_parts path)"
    unfolding real_parts_def by (rule foldl_norm_skip)
  have r: "replicate (initial_slashes path) CHR ''/'' \<noteq> []"
    using n by auto
  show ?thesis
    unfolding normpath_def Let_def t f using ne r by simp
qed

lemma foldl_norm_clean: "clean comps \<Longrightarrow> foldl (norm_step True) acc comps = acc @ comps"
  by (induction comps arbitrary: acc) (auto simp: norm_step_def)

lemma norm_step_dotdot: "clean acc \<Longrightarrow> norm_step True acc ''..'' = butlast acc"
proof (cases "acc = []")
  case True
  then show ?thesis by (simp add: norm_step_def)
next
  case False
  assume "clean acc"
  with False have "last acc \<noteq> ''..''"
    by (metis clean_def last_in_set)
  with False show ?thesis by (simp add: norm_step_def)
qed

lemma foldl_norm_dotdot:
  "clean acc \<Longrightarrow> foldl (norm_step True) acc (replicate k ''..'') = take (length acc - k) acc"
proof (induction k arbitrary: acc)
  case 0
  then show ?case by simp
next
  case (Suc k)
  have "foldl (norm_step True) acc (replicate (Suc k) ''..'')
      = foldl (norm_step True) (butlast acc) (replicate k ''..'')"
    using Suc.prems by (simp add: norm_step_dotdot)
  also have "\<dots> = take (length (butlast acc) - k) (butlast acc)"
    using Suc.prems by (intro Suc.IH clean_sub)
  also have "\<dots> = take (length acc - Suc k) acc"
    by (simp add: butlast_conv_take min_def)
  finally show ?case .
qed

lemma split_sep_parts: "w \<in> set (split_sep s) \<Longrightarrow> CHR ''/'' \<notin> set w"
proof (induction s arbitrary: w)
  case Nil
  then show ?case by simp
next
  case (Cons c s)
  obtain v vs where v: "split_sep s = v # vs"
    by (cases "split_sep s") auto
  with Cons show ?case by (auto split: if_splits)
qed

lemma norm_step_clean:
  assumes "clean acc" "CHR ''/'' \<notin> set part"
  shows "clean (norm_step True acc part)"
proof (cases "part = ''..''")
  case True
  with assms show ?thesis by (simp add: norm_step_dotdot clean_sub)
next
  case False
  with assms show ?thesis by (auto simp: norm_step_def)
qed

lemma foldl_norm_step_clean:
  "clean acc \<Longrightarrow> \<forall>w\<in>set parts. CHR ''/'' \<notin> set w \<Longrightarrow> clean (foldl (norm_step True) acc parts)"
  by (induction parts arbitrary: acc) (auto simp: norm_step_clean)

lemma initial_slashes_replicate:
  assumes "n = 1 \<or> n = 2" "x = [] \<or> hd x \<noteq> CHR ''/''"
  shows "initial_slashes (replicate n CHR ''/'' @ x) = n"
proof -
  consider "x = []" | y ys where "x = y # ys" "y \<noteq> CHR ''/''"
    using assms(2) by (cases x) auto
  then show ?thesis
  proof cases
    case 1
    with assms(1) show ?thesis
      by (auto simp: initial_slashes_def numeral_2_eq_2)
  next
    case 2
    with assms(1) show ?thesis
      by (auto simp: initial_slashes_def numeral_2_eq_2)
  qed
qed

lemma initial_slashes_abs:
  "prefix ''/'' p \<Longrightarrow> initial_slashes p = 1 \<or> initial_slashes p = 2"
  by (simp add: initial_slashes_def)

lemma join_sep_clean_head: "clean C \<Longrightarrow> join_sep C = [] \<or> hd (join_sep C) \<noteq> CHR ''/''"
  using join_sep_head [of C] by (cases "C = []") (auto simp: clean_proper)

text \<open>An absolute path normalises to its root slashes and clean components.\<close>

lemma normpath_abs_form:
  assumes "prefix ''/'' p"
  obtains C where "clean C"
    and "normpath p = replicate (initial_slashes p) CHR ''/'' @ join_sep C"
proof -
  let ?C = "foldl (norm_step True) [] (real_parts p)"
  have "clean ?C"
    by (rule foldl_norm_step_clean) (auto simp: real_parts_def dest: split_sep_parts)
  moreover have "normpath p = replicate (initial_slashes p) CHR ''/'' @ join_sep ?C"
    using assms by (rule normpath_abs)
  ultimately show ?thesis by (rule that)
qed

lemma normpath_normal:
  assumes "n = 1 \<or> n = 2" "clean C"
  shows "normpath (replicate n CHR ''/'' @ join_sep C) = replicate n CHR ''/'' @ join_sep C"
proof -
  let ?p = "replicate n CHR ''/'' @ join_sep C"
  have ab: "prefix ''/'' ?p" using assms(1) by (auto simp: numeral_2_eq_2)
  have i: "initial_slashes ?p = n"
    using assms by (intro initial_slashes_replicate join_sep_clean_head)
  have "real_parts ?p = C"
    using assms(2) by (simp add: real_parts_join clean_proper)
  then show ?thesis
    using assms(2) by (simp add: normpath_abs [OF ab] i foldl_norm_clean)
qed

lemma path_components_normal:
  assumes "clean C"
  shows "path_components (replicate n CHR ''/'' @ join_sep C) = C"
proof -
  have h: "join_sep C = [] \<or> hd (join_sep C) \<noteq> CHR ''/''"
    using assms by (rule join_sep_clean_head)
  have "lstrip_sep (replicate n CHR ''/'' @ join_sep C) = join_sep C"
  proof -
    have "dropWhile (\<lambda>c. c = CHR ''/'') (replicate n CHR ''/'' @ join_sep C)
        = dropWhile (\<lambda>c. c = CHR ''/'') (join_sep C)"
      by (intro dropWhile_append2) auto
    also have "\<dots> = join_sep C"
      using h by (cases "join_sep C") auto
    finally show ?thesis by (simp add: lstrip_sep_def)
  qed
  moreover have "join_sep C = [] \<longleftrightarrow> C = []"
    using assms join_sep_head [of C] by (auto simp: clean_proper)
  moreover have "C \<noteq> [] \<Longrightarrow> split_sep (join_sep C) = C"
    using assms by (intro split_sep_join) (auto simp: clean_def proper_def)
  ultimately show ?thesis
    by (auto simp: path_components_def Let_def)
qed


lemma dropWhile_stop: "xs \<noteq> [] \<Longrightarrow> \<not> P (hd xs) \<Longrightarrow> dropWhile P (xs @ ys) = xs @ ys"
  by (cases xs) auto

lemma dirname_normal:
  assumes n: "n = 1 \<or> n = 2" and C: "clean C"
  shows "dirname (replicate n CHR ''/'' @ join_sep C) = replicate n CHR ''/'' @ join_sep (butlast C)"
proof -
  let ?R = "replicate n CHR ''/''"
  have R: "?R \<noteq> []" "hd ?R = CHR ''/''" using n by auto
  have dwR: "dropWhile (\<lambda>c. c \<noteq> CHR ''/'') ?R = ?R"
    using dropWhile_stop [of ?R "\<lambda>c. c \<noteq> CHR ''/''" "[]"] R by simp
  show ?thesis
  proof (cases C rule: rev_cases)
    case Nil
    then show ?thesis by (simp add: dirname_def Let_def dwR)
  next
    case (snoc B c)
    with C have c: "CHR ''/'' \<notin> set c" and B: "clean B" by simp_all
    show ?thesis
    proof (cases "B = []")
      case True
      have "dropWhile (\<lambda>c. c \<noteq> CHR ''/'') (rev c @ ?R) = dropWhile (\<lambda>c. c \<noteq> CHR ''/'') ?R"
        using c by (intro dropWhile_append2) auto
      then show ?thesis
        using snoc True by (simp add: dirname_def Let_def dwR)
    next
      case False
      let ?J = "join_sep B"
      from B False have J: "?J \<noteq> []" "hd ?J \<noteq> CHR ''/''" "last ?J \<noteq> CHR ''/''"
        using join_sep_head [of B] join_sep_last [of B] by (auto simp: clean_proper)
      have p: "?R @ join_sep C = ?R @ ?J @ CHR ''/'' # c"
        using snoc False by (simp add: join_sep_snoc)
      have "dropWhile (\<lambda>c. c \<noteq> CHR ''/'') (rev c @ CHR ''/'' # rev ?J @ ?R)
          = dropWhile (\<lambda>c. c \<noteq> CHR ''/'') (CHR ''/'' # rev ?J @ ?R)"
        using c by (intro dropWhile_append2) auto
      then have head: "rev (dropWhile (\<lambda>c. c \<noteq> CHR ''/'') (rev (?R @ join_sep C)))
          = ?R @ ?J @ ''/''"
        by (simp add: p)
      have "hd ?J \<in> set (?R @ ?J @ ''/'')" using J(1) by simp
      then have notall: "?R @ ?J @ ''/'' \<noteq> replicate (length (?R @ ?J @ ''/'')) CHR ''/''"
        using J(2) by (metis in_set_replicate)
      have "dropWhile (\<lambda>c. c = CHR ''/'') (rev ?J @ ?R) = rev ?J @ ?R"
        using J by (intro dropWhile_stop) (auto simp: hd_rev)
      then have "rstrip_sep (?R @ ?J @ ''/'') = ?R @ ?J"
        by (simp add: rstrip_sep_def)
      with head notall show ?thesis
        unfolding dirname_def Let_def using snoc by simp
    qed
  qed
qed

lemma abspath_abs_arg:
  assumes "prefix ''/'' cwd"
  shows "prefix ''/'' (if prefix ''/'' path then path else path_join cwd path)"
proof -
  from assms obtain r where "cwd = CHR ''/'' # r" by (auto simp: prefix_def)
  then show ?thesis by (auto simp: path_join_def)
qed

lemma abspath_form:
  assumes "prefix ''/'' cwd"
  obtains n C where "n = 1 \<or> n = 2" "clean C"
    and "abspath cwd p = replicate n CHR ''/'' @ join_sep C"
proof -
  let ?a = "if prefix ''/'' p then p else path_join cwd p"
  have ab: "prefix ''/'' ?a" using assms by (rule abspath_abs_arg)
  from normpath_abs_form [OF ab] obtain C where "clean C"
    and "normpath ?a = replicate (initial_slashes ?a) CHR ''/'' @ join_sep C" by blast
  moreover have "initial_slashes ?a = 1 \<or> initial_slashes ?a = 2"
    using ab by (rule initial_slashes_abs)
  ultimately show ?thesis
    using that [of "initial_slashes ?a" C] by (simp add: abspath_def)
qed

lemma abspath_normal:
  assumes "n = 1 \<or> n = 2" "clean C"
  shows "abspath cwd (replicate n CHR ''/'' @ join_sep C) = replicate n CHR ''/'' @ join_sep C"
proof -
  have "prefix ''/'' (replicate n CHR ''/'' @ join_sep C)"
    using assms(1) by (auto simp: numeral_2_eq_2)
  then show ?thesis
    using assms by (simp add: abspath_def normpath_normal)
qed


text \<open>
  Resolving a relative path against a directory, lexically: join, then normalise.
\<close>

definition resolve_against :: "string \<Rightarrow> string \<Rightarrow> string" where
  "resolve_against dir rel = normpath (path_join dir rel)"

text \<open>The \<open>rel_list\<close> of \<open>relpath\<close> for given component lists.\<close>

definition rel_list_of :: "string list \<Rightarrow> string list \<Rightarrow> string list" where
  "rel_list_of S T =
     replicate (length S - length (longest_common_prefix S T)) ''..''
       @ drop (length (longest_common_prefix S T)) T"

lemma relpath_normal:
  assumes "n = 1 \<or> n = 2" "m = 1 \<or> m = 2" "clean S" "clean T"
  shows "relpath cwd (replicate m CHR ''/'' @ join_sep T) (replicate n CHR ''/'' @ join_sep S)
    = Inr (if rel_list_of S T = [] then ''.'' else join_sep (rel_list_of S T))"
proof -
  have "replicate m CHR ''/'' @ join_sep T \<noteq> []" using assms(2) by auto
  then show ?thesis
    unfolding relpath_def Let_def rel_list_of_def
    using assms by (simp add: abspath_normal path_components_normal)
qed

lemma proper_dotdots: "proper (replicate k ''..'')"
  by (induction k) simp_all

lemma proper_rel_list: "clean T \<Longrightarrow> proper (rel_list_of S T)"
  unfolding rel_list_of_def by (simp add: proper_dotdots proper_sub clean_proper)

lemma real_parts_path_join:
  assumes "a \<noteq> []" "\<not> prefix ''/'' b"
  shows "real_parts (path_join a b) = real_parts a @ real_parts b"
proof (cases "suffix ''/'' a")
  case True
  then obtain a' where a: "a = a' @ ''/''" by (auto simp: suffix_def)
  have "real_parts a = real_parts a'"
    using real_parts_append [of a' "[]"] by (simp add: a)
  moreover have "real_parts (a @ b) = real_parts a' @ real_parts b"
    using real_parts_append [of a' b] by (simp add: a)
  ultimately show ?thesis
    using assms True by (simp add: path_join_def)
next
  case False
  then show ?thesis
    using assms real_parts_append [of a b] by (simp add: path_join_def)
qed

lemma path_join_root:
  assumes n: "n = 1 \<or> n = 2" and S: "clean S" and b: "b \<noteq> []" "hd b \<noteq> CHR ''/''"
  shows "\<exists>x. path_join (replicate n CHR ''/'' @ join_sep S) b = replicate n CHR ''/'' @ x
     \<and> (x = [] \<or> hd x \<noteq> CHR ''/'')"
proof -
  let ?R = "replicate n CHR ''/''"
  from b have nb: "\<not> prefix ''/'' b" by (cases b) auto
  show ?thesis
  proof (cases "S = []")
    case True
    have "suffix ''/'' ?R" using n by (auto simp: suffix_def numeral_2_eq_2)
    then have "path_join (?R @ join_sep S) b = ?R @ b"
      using True nb by (simp add: path_join_def)
    with b show ?thesis by blast
  next
    case False
    with S have J: "join_sep S \<noteq> []" "hd (join_sep S) \<noteq> CHR ''/''"
      using join_sep_head [of S] by (auto simp: clean_proper)
    have "path_join (?R @ join_sep S) b = ?R @ (join_sep S @ b)
        \<or> path_join (?R @ join_sep S) b = ?R @ (join_sep S @ ''/'' @ b)"
      using nb by (simp add: path_join_def)
    moreover have "hd (join_sep S @ b) \<noteq> CHR ''/''" "hd (join_sep S @ ''/'' @ b) \<noteq> CHR ''/''"
      using J by simp_all
    ultimately show ?thesis by blast
  qed
qed

lemma take_lcp:
  "take (length (longest_common_prefix S T)) S = take (length (longest_common_prefix S T)) T"
proof -
  let ?p = "longest_common_prefix S T"
  have "prefix ?p S" "prefix ?p T"
    by (rule longest_common_prefix_prefix1, rule longest_common_prefix_prefix2)
  then obtain s t where "S = ?p @ s" "T = ?p @ t" by (auto simp: prefix_def)
  then have "take (length ?p) S = ?p" "take (length ?p) T = ?p"
    by (metis append_eq_conv_conj)+
  then show ?thesis by simp
qed

lemma length_lcp_le: "length (longest_common_prefix S T) \<le> length S"
  using longest_common_prefix_prefix1 [of S T] by (rule prefix_length_le)

lemma foldl_norm_rel:
  assumes "clean S" "clean T"
  shows "foldl (norm_step True) [] (S @ rel_list_of S T) = T"
proof -
  let ?i = "length (longest_common_prefix S T)"
  have "foldl (norm_step True) [] (S @ rel_list_of S T)
      = foldl (norm_step True) (foldl (norm_step True) S (replicate (length S - ?i) ''..'')) (drop ?i T)"
    using assms(1) by (simp add: rel_list_of_def foldl_norm_clean)
  also have "\<dots> = foldl (norm_step True) (take ?i S) (drop ?i T)"
    using assms(1) length_lcp_le [of S T] by (simp add: foldl_norm_dotdot)
  also have "\<dots> = take ?i S @ drop ?i T"
    using assms(2) by (intro foldl_norm_clean clean_sub)
  also have "\<dots> = T"
    using take_lcp [of S T] by simp
  finally show ?thesis .
qed

lemma resolve_normal:
  assumes n: "n = 1 \<or> n = 2" and S: "clean S" and T: "clean T"
    and rel: "rel = (if rel_list_of S T = [] then ''.'' else join_sep (rel_list_of S T))"
  shows "resolve_against (replicate n CHR ''/'' @ join_sep S) rel = replicate n CHR ''/'' @ join_sep T"
proof -
  let ?R = "replicate n CHR ''/''"
  let ?D = "?R @ join_sep S"
  have pr: "proper (rel_list_of S T)" using T by (rule proper_rel_list)
  have b: "rel \<noteq> []" "hd rel \<noteq> CHR ''/''"
    using pr join_sep_head [of "rel_list_of S T"] by (auto simp: rel)
  then have nb: "\<not> prefix ''/'' rel" by (cases rel) auto
  have rp: "real_parts rel = rel_list_of S T"
    using pr by (auto simp: rel real_parts_join)
  have D: "?D \<noteq> []" using n by auto
  from path_join_root [OF n S b] obtain x
    where x: "path_join ?D rel = ?R @ x" "x = [] \<or> hd x \<noteq> CHR ''/''" by blast
  have ab: "prefix ''/'' (path_join ?D rel)"
    using n by (auto simp: x(1) numeral_2_eq_2)
  have i: "initial_slashes (path_join ?D rel) = n"
    unfolding x(1) using n x(2) by (rule initial_slashes_replicate)
  have "real_parts (path_join ?D rel) = S @ rel_list_of S T"
    using S by (simp add: real_parts_path_join [OF D nb] rp real_parts_join clean_proper)
  then show ?thesis
    using S T by (simp add: resolve_against_def normpath_abs [OF ab] i foldl_norm_rel del: foldl_append)
qed


text \<open>
  The double-slash root: POSIX keeps a path that starts with exactly two slashes apart
  from the same components under a single slash, and so does \<open>normpath\<close>, while
  \<open>relpath\<close> strips every leading slash. A relative path between two such roots
  resolves to the right components under the root of the directory it is resolved
  against.
\<close>

lemma double_slash_root_kept:
  "calculate_relative_path ''/'' ''//a/x.js'' ''/a/b'' = Inr ''b''
   \<and> resolve_against (dirname (abspath ''/'' ''//a/x.js'')) ''b'' = ''//a/b''
   \<and> abspath ''/'' ''/a/b'' = ''/a/b''"
  by code_simp

text \<open>
  C2, as the claim states it, fails where a component of the target holds a backslash (a
  legal character of a POSIX file name): the final \<open>replace\<close> turns it into a
  separator, and the resolved path names another file.
\<close>

theorem relative_path_round_trip_counterexample:
  "calculate_relative_path ''/srv'' ''app/x.js'' (''data'' @ [backslash] @ ''f'') = Inr ''../data/f''
   \<and> resolve_against (dirname (abspath ''/srv'' ''app/x.js'')) ''../data/f'' = ''/srv/data/f''
   \<and> abspath ''/srv'' (''data'' @ [backslash] @ ''f'') = ''/srv/data'' @ [backslash] @ ''f''
   \<and> path_components (resolve_against (dirname (abspath ''/srv'' ''app/x.js'')) ''../data/f'')
       \<noteq> path_components (abspath ''/srv'' (''data'' @ [backslash] @ ''f''))"
  by code_simp

text \<open>
  C2 (amended). Let the working directory be absolute, and let the relative path that
  \<open>os.path.relpath\<close> computes hold no backslash. Then \<open>calculate_relative_path\<close>
  returns that path, and resolving it against the directory of \<open>from_file\<close> yields
  the components of the absolute \<open>to_file\<close>; the resolved text is \<open>abspath(to_file)\<close>
  itself whenever the two absolute paths start with the same number of slashes.
\<close>

theorem relative_path_round_trip:
  assumes cwd: "prefix ''/'' cwd"
    and rel: "relpath cwd (abspath cwd to_file) (dirname (abspath cwd from_file)) = Inr rel"
    and nb: "backslash \<notin> set rel"
  shows "calculate_relative_path cwd from_file to_file = Inr rel
     \<and> path_components (resolve_against (dirname (abspath cwd from_file)) rel)
         = path_components (abspath cwd to_file)
     \<and> (initial_slashes (abspath cwd from_file) = initial_slashes (abspath cwd to_file)
          \<longrightarrow> resolve_against (dirname (abspath cwd from_file)) rel = abspath cwd to_file)"
proof -
  from abspath_form [OF cwd, of from_file] obtain n F
    where n: "n = 1 \<or> n = 2" and F: "clean F"
      and af: "abspath cwd from_file = replicate n CHR ''/'' @ join_sep F" by blast
  from abspath_form [OF cwd, of to_file] obtain m T
    where m: "m = 1 \<or> m = 2" and T: "clean T"
      and at: "abspath cwd to_file = replicate m CHR ''/'' @ join_sep T" by blast
  let ?S = "butlast F"
  have S: "clean ?S" using F by (rule clean_sub)
  have dir: "dirname (abspath cwd from_file) = replicate n CHR ''/'' @ join_sep ?S"
    unfolding af using n F by (rule dirname_normal)
  have r: "rel = (if rel_list_of ?S T = [] then ''.'' else join_sep (rel_list_of ?S T))"
    using rel unfolding dir at relpath_normal [OF n m S T] by simp
  have res: "resolve_against (dirname (abspath cwd from_file)) rel = replicate n CHR ''/'' @ join_sep T"
    unfolding dir using n S T r by (rule resolve_normal)
  have "map (\<lambda>x. if x = backslash then CHR ''/'' else x) rel = rel"
    using nb by (induction rel) auto
  then have c: "calculate_relative_path cwd from_file to_file = Inr rel"
    using rel calculate_relative_path_eq [of cwd to_file from_file] by simp
  have i1: "initial_slashes (abspath cwd from_file) = n"
    unfolding af using n F by (intro initial_slashes_replicate join_sep_clean_head)
  have i2: "initial_slashes (abspath cwd to_file) = m"
    unfolding at using m T by (intro initial_slashes_replicate join_sep_clean_head)
  have pc: "path_components (resolve_against (dirname (abspath cwd from_file)) rel)
         = path_components (abspath cwd to_file)"
    unfolding res at using T by (simp add: path_components_normal)
  have "n = m \<Longrightarrow> resolve_against (dirname (abspath cwd from_file)) rel = abspath cwd to_file"
    unfolding res at by simp
  with c pc i1 i2 show ?thesis by simp
qed

theorem relative_path_round_trip_witness:
  "prefix ''/'' ''/home/u/proj''
   \<and> relpath ''/home/u/proj'' (abspath ''/home/u/proj'' ''src/data/medicaid_rules_2025.json'')
        (dirname (abspath ''/home/u/proj'' ''./src/app/main.ts'')) = Inr ''../data/medicaid_rules_2025.json''
   \<and> backslash \<notin> set ''../data/medicaid_rules_2025.json''
   \<and> calculate_relative_path ''/home/u/proj'' ''./src/app/main.ts'' ''src/data/medicaid_rules_2025.json''
       = Inr ''../data/medicaid_rules_2025.json''
   \<and> resolve_against (dirname (abspath ''/home/u/proj'' ''./src/app/main.ts''))
        ''../data/medicaid_rules_2025.json'' = abspath ''/home/u/proj'' ''src/data/medicaid_rules_2025.json''"
proof -
  have h1: "prefix ''/'' ''/home/u/proj''" by simp
  have h2: "relpath ''/home/u/proj'' (abspath ''/home/u/proj'' ''src/data/medicaid_rules_2025.json'')
        (dirname (abspath ''/home/u/proj'' ''./src/app/main.ts'')) = Inr ''../data/medicaid_rules_2025.json''"
    by code_simp
  have h3: "backslash \<notin> set ''../data/medicaid_rules_2025.json''" by simp
  have h4: "initial_slashes (abspath ''/home/u/proj'' ''./src/app/main.ts'')
      = initial_slashes (abspath ''/home/u/proj'' ''src/data/medicaid_rules_2025.json'')"
    by code_simp
  from relative_path_round_trip [OF h1 h2 h3] h1 h2 h3 h4 show ?thesis by blast
qed

section \<open>The rewriter (fix\_json\_imports.py)\<close>

subsection \<open>The world the script runs in\<close>

text \<open>
  A file is the text it stores (its decoded characters, line endings as they stand in the
  file) and whether it can be read and written; the file system maps a path, spelled as
  the script passes it to \<open>open\<close>, to the file it names. The script opens every file
  in text mode without a \<open>newline\<close> argument. A read fails (the file is missing,
  unreadable or cannot be decoded) or returns the whole text with universal newlines:
  every CR LF and every lone CR is read as LF. A write fails when the file cannot be
  opened, leaving it as it was, or truncates the file and stores the whole new text,
  every LF written as the line separator of the host (\<open>os.linesep\<close>). The log records,
  in order, every attempt to open a file and every line the script prints.
\<close>

record file_state =
  file_text :: string
  readable :: bool
  writable :: bool

datatype event =
    OpenRead string
  | OpenWrite string string
  | Scanning string
  | Updated string string string
  | NoMatch string
  | Complete

text \<open>
  A directory as \<open>os.walk\<close> lists it: the names of its files and its subdirectories,
  in listing order.
\<close>

datatype dirtree = Dir "string list" "(string \<times> dirtree) list"

record world =
  cwd :: string
  linesep :: string
  tree :: dirtree
  files :: "string \<rightharpoonup> file_state"
  log :: "event list"

text \<open>A call either raises, with the world as it was left, or returns.\<close>

datatype 'a result = Raised error world | Returned 'a world

definition emit :: "event \<Rightarrow> world \<Rightarrow> world" where
  "emit e w = w\<lparr>log := log w @ [e]\<rparr>"

text \<open>Reading in text mode: \<open>\r\n\<close> and \<open>\r\<close> become \<open>\n\<close>.\<close>

fun universal_newlines :: "string \<Rightarrow> string" where
  "universal_newlines [] = []"
| "universal_newlines [c] = (if c = CHR 0x0D then [CHR 0x0A] else [c])"
| "universal_newlines (c # d # cs) =
     (if c = CHR 0x0D
      then (if d = CHR 0x0A then CHR 0x0A # universal_newlines cs
            else CHR 0x0A # universal_newlines (d # cs))
      else c # universal_newlines (d # cs))"

text \<open>Writing in text mode: every \<open>\n\<close> becomes the line separator.\<close>

definition write_newlines :: "string \<Rightarrow> string \<Rightarrow> string" where
  "write_newlines sep s = concat (map (\<lambda>c. if c = CHR 0x0A then sep else [c]) s)"

text \<open>The text \<open>f.read()\<close> returns for a file.\<close>

definition read_text :: "file_state \<Rightarrow> string" where
  "read_text f = universal_newlines (file_text f)"

text \<open>\<^verbatim>\<open>with open(file_path, 'r') as f: content = f.read()\<close>\<close>

definition read_file :: "string \<Rightarrow> world \<Rightarrow> string result" where
  "read_file path w =
     (let w1 = emit (OpenRead path) w
      in case files w path of
           None \<Rightarrow> Raised (ReadFailed path) w1
         | Some f \<Rightarrow>
             if readable f then Returned (read_text f) w1
             else Raised (ReadFailed path) w1)"

text \<open>\<^verbatim>\<open>with open(file_path, 'w') as f: f.write(new_content)\<close>\<close>

definition write_file :: "string \<Rightarrow> string \<Rightarrow> world \<Rightarrow> unit result" where
  "write_file path new_text w =
     (let w1 = emit (OpenWrite path new_text) w
      in case files w path of
           None \<Rightarrow>
             Returned () (w1\<lparr>files := (files w1)
               (path \<mapsto> \<lparr>file_text = write_newlines (linesep w) new_text,
                            readable = True, writable = True\<rparr>)\<rparr>)
         | Some f \<Rightarrow>
             if writable f
             then Returned ()
                    (w1\<lparr>files := (files w1)
                          (path \<mapsto> f\<lparr>file_text := write_newlines (linesep w) new_text\<rparr>)\<rparr>)
             else Raised (WriteFailed path) w1)"

subsection \<open>\<open>update_file\<close>\<close>

text \<open>The f-string \<^verbatim>\<open>f"require('{new_rel_path}')"\<close>.\<close>

definition replacement_for :: "string \<Rightarrow> string" where
  "replacement_for new_rel_path = ''require('' @ [squote] @ new_rel_path @ [squote] @ '')''"

text \<open>
  The loop over the matches (lines 26 to 32): each round computes the relative path
  anew, replaces every occurrence of the matched text in \<open>new_content\<close> and prints the
  update. \<open>match.group(2)\<close> is read into \<open>old_path\<close> and never used.
\<close>

fun replace_matches ::
  "string \<Rightarrow> string \<Rightarrow> rmatch list \<Rightarrow> string \<Rightarrow> world \<Rightarrow> string result" where
  "replace_matches file_path correct_json_path [] new_content w = Returned new_content w"
| "replace_matches file_path correct_json_path (m # ms) new_content w =
     (case calculate_relative_path (cwd w) file_path correct_json_path of
        Inl e \<Rightarrow> Raised e w
      | Inr new_rel_path \<Rightarrow>
          let full_match = group0 m;
              replacement = replacement_for new_rel_path
          in replace_matches file_path correct_json_path ms
               (str_replace full_match replacement new_content)
               (emit (Updated file_path full_match replacement) w))"

definition update_file :: "string \<Rightarrow> string \<Rightarrow> world \<Rightarrow> unit result" where
  "update_file file_path correct_json_path w =
     (case read_file file_path w of
        Raised e w1 \<Rightarrow> Raised e w1
      | Returned content w1 \<Rightarrow>
          let matches = finditer content
          in if matches \<noteq> [] then
               (case replace_matches file_path correct_json_path matches content w1 of
                  Raised e w2 \<Rightarrow> Raised e w2
                | Returned new_content w2 \<Rightarrow> write_file file_path new_content w2)
             else Returned () (emit (NoMatch file_path) w1))"

subsection \<open>\<open>os.walk\<close> and \<open>scan_and_update_files\<close>\<close>

text \<open>
  \<open>os.walk(root)\<close>, top down: it yields \<open>(root, dirs, files)\<close> for a directory and then
  walks the subdirectories named in \<open>dirs\<close>, in the order and with the content the
  consumer left in that list. \<open>keep root dirs\<close> is what the body of the consuming loop
  leaves in \<open>dirs\<close>; a name that is no subdirectory yields nothing.
\<close>

lemma map_of_size:
  "map_of subs name = Some (t :: dirtree) \<Longrightarrow> size t < Suc (size_list (size_prod (\<lambda>_. 0) size) subs)"
  by (induction subs) (auto split: if_splits)

function os_walk ::
  "(string \<Rightarrow> string list \<Rightarrow> string list) \<Rightarrow> string \<Rightarrow> dirtree
     \<Rightarrow> (string \<times> string list \<times> string list) list" where
  "os_walk keep root (Dir fnames subs) =
     (root, map fst subs, fnames) #
       concat (map (\<lambda>name. case map_of subs name of
                               None \<Rightarrow> []
                             | Some t \<Rightarrow> os_walk keep (path_join root name) t)
                   (keep root (map fst subs)))"
  by pat_completeness auto
termination
  by (relation "measure (\<lambda>(keep, root, t). size t)") (auto dest: map_of_size)

definition endswith :: "string \<Rightarrow> string \<Rightarrow> bool" where
  "endswith s x = suffix x s"

text \<open>The inner loop, \<^verbatim>\<open>for file in files\<close> (lines 42 to 45).\<close>

fun update_files :: "string \<Rightarrow> string \<Rightarrow> string list \<Rightarrow> world \<Rightarrow> unit result" where
  "update_files root correct_json_path [] w = Returned () w"
| "update_files root correct_json_path (fname # fnames) w =
     (if endswith fname ''.js'' \<or> endswith fname ''.ts'' then
        (case update_file (path_join root fname) correct_json_path w of
           Raised e w1 \<Rightarrow> Raised e w1
         | Returned u w1 \<Rightarrow> update_files root correct_json_path fnames w1)
      else update_files root correct_json_path fnames w)"

text \<open>The outer loop, \<^verbatim>\<open>for root, dirs, files in os.walk(base_dir)\<close>.\<close>

fun walk_loop ::
  "string \<Rightarrow> (string \<times> string list \<times> string list) list \<Rightarrow> world \<Rightarrow> unit result" where
  "walk_loop correct_json_path [] w = Returned () w"
| "walk_loop correct_json_path ((root, dirs, fnames) # rest) w =
     (case update_files root correct_json_path fnames w of
        Raised e w1 \<Rightarrow> Raised e w1
      | Returned u w1 \<Rightarrow> walk_loop correct_json_path rest w1)"

text \<open>
  \<open>scan_and_update_files\<close>: \<open>tree w\<close> is the directory that \<open>base_dir\<close> names; the loop
  body never touches \<open>dirs\<close>.
\<close>

definition scan_and_update_files :: "string \<Rightarrow> string \<Rightarrow> world \<Rightarrow> unit result" where
  "scan_and_update_files base_dir correct_json_path w =
     walk_loop correct_json_path (os_walk (\<lambda>root dirs. dirs) base_dir (tree w))
       (emit (Scanning (abspath (cwd w) base_dir)) w)"

text \<open>The configuration (lines 5 to 7) and the main block (lines 47 to 50).\<close>

definition correct_path :: string where
  "correct_path = ''src/data/medicaid_rules_2025.json''"

definition project_root :: string where
  "project_root = ''.''"

definition main :: "world \<Rightarrow> unit result" where
  "main w =
     (let full_json_path = abspath (cwd w) (path_join project_root correct_path)
      in case scan_and_update_files project_root full_json_path w of
           Raised e w1 \<Rightarrow> Raised e w1
         | Returned u w1 \<Rightarrow> Returned () (emit Complete w1))"

section \<open>What \<open>finditer\<close> finds\<close>

text \<open>The texts the pattern matches as a whole.\<close>

definition match_text :: "string \<Rightarrow> bool" where
  "match_text x \<longleftrightarrow>
     (\<exists>q1 p q2. is_quote q1 \<and> non_quotes p \<and> is_quote q2
        \<and> x = require_open @ q1 # p @ target_filename @ [q2, CHR '')''])"

lemma lazy_path_Some:
  "lazy_path s = Some (p, q, rest) \<Longrightarrow>
     s = p @ target_filename @ q # CHR '')'' # rest \<and> non_quotes p \<and> is_quote q"
proof (induction s arbitrary: p)
  case Nil
  then show ?case by simp
next
  case (Cons c cs)
  show ?case
  proof (cases "match_tail (c # cs)")
    case None
    with Cons.prems obtain p' where p': "lazy_path cs = Some (p', q, rest)" "p = c # p'" "\<not> is_quote c"
      by (auto split: if_splits)
    from Cons.IH [OF p'(1)] p'(2,3) show ?thesis by simp
  next
    case (Some a)
    with Cons.prems have "match_tail (c # cs) = Some (q, rest)" "p = []"
      by (auto split: prod.splits)
    then show ?thesis by (simp add: match_tail_Some)
  qed
qed

lemma match_at_Some:
  assumes "match_at s = Some (m, rest)"
  shows "s = group0 m @ rest \<and> match_text (group0 m)"
proof -
  from assms obtain q1 s2 p q2 where s: "s = require_open @ q1 # s2" and q1: "is_quote q1"
    and l: "lazy_path s2 = Some (p, q2, rest)"
    and m: "m = \<lparr>group0 = require_open @ q1 # p @ target_filename @ [q2, CHR '')''],
                 group1 = [q1], group2 = p, group3 = [q2]\<rparr>"
    by (auto simp: match_at_def strip_prefix_Some split: option.splits list.splits if_splits)
  from lazy_path_Some [OF l] q1 show ?thesis
    unfolding match_text_def s m by auto
qed

lemma match_text_nonempty: "match_text x \<Longrightarrow> x \<noteq> []"
  by (auto simp: match_text_def require_open_def)

lemma match_at_prefix:
  assumes "match_text x"
  shows "\<exists>m. match_at (x @ r) = Some (m, r) \<and> group0 m = x"
proof -
  from assms obtain q1 p q2 where q: "is_quote q1" "non_quotes p" "is_quote q2"
    and x: "x = require_open @ q1 # p @ target_filename @ [q2, CHR '')'']"
    by (auto simp: match_text_def)
  from match_at_exact [OF q, of r] show ?thesis
    by (simp add: x)
qed

lemma finditer_miss: "match_at (c # cs) = None \<Longrightarrow> finditer (c # cs) = finditer cs"
  by simp

lemma finditer_hit: "match_at (c # cs) = Some (m, rest) \<Longrightarrow> finditer (c # cs) = m # finditer rest"
  by simp

lemma finditer_cases [case_names Nil Miss Hit]:
  assumes "P []"
    and "\<And>c cs. match_at (c # cs) = None \<Longrightarrow> P cs \<Longrightarrow> P (c # cs)"
    and "\<And>c cs m rest. match_at (c # cs) = Some (m, rest) \<Longrightarrow> P rest \<Longrightarrow> P (c # cs)"
  shows "P s"
proof (induction s rule: finditer.induct)
  case 1
  show ?case by (rule assms(1))
next
  case (2 c cs)
  show ?case
  proof (cases "match_at (c # cs)")
    case None
    with 2 assms(2) show ?thesis by blast
  next
    case (Some a)
    obtain m rest where "a = (m, rest)" by (cases a)
    with Some 2 assms(3) show ?thesis by blast
  qed
qed

declare finditer.simps(2) [simp del]

lemma finditer_match_text: "m \<in> set (finditer s) \<Longrightarrow> match_text (group0 m)"
proof (induction s rule: finditer_cases)
  case Nil
  then show ?case by simp
next
  case (Miss c cs)
  then show ?case by (simp add: finditer_miss)
next
  case (Hit c cs m' rest)
  from Hit.prems Hit.hyps have "m = m' \<or> m \<in> set (finditer rest)"
    by (simp add: finditer_hit)
  then show ?case
    using Hit.IH match_at_Some [OF Hit.hyps] by auto
qed

lemma match_at_Nil [simp]: "match_at [] = None"
  by (simp add: match_at_def require_open_def)

lemma finditer_Nil_suffix: "finditer s = [] \<Longrightarrow> match_at (drop d s) = None"
proof (induction s arbitrary: d rule: finditer_cases)
  case Nil
  then show ?case by simp
next
  case (Miss c cs)
  from Miss.prems Miss.hyps have f: "finditer cs = []" by (simp add: finditer_miss)
  show ?case
  proof (cases d)
    case 0
    with Miss.hyps show ?thesis by simp
  next
    case (Suc d')
    with Miss.IH [OF f] show ?thesis by simp
  qed
next
  case (Hit c cs m rest)
  then show ?case by (simp add: finditer_hit)
qed

lemma str_replace_Nil [simp]: "old \<noteq> [] \<Longrightarrow> str_replace old new [] = []"
  by (simp add: str_replace.simps)

lemma str_replace_Cons:
  "old \<noteq> [] \<Longrightarrow> str_replace old new (c # cs) =
     (if prefix old (c # cs) then new @ str_replace old new (drop (length old) (c # cs))
      else c # str_replace old new cs)"
  by (subst str_replace.simps) simp

lemma str_replace_hit:
  assumes "old \<noteq> []"
  shows "str_replace old new (old @ r) = new @ str_replace old new r"
proof -
  obtain c cs where e: "old @ r = c # cs" using assms by (cases old) auto
  have "prefix old (c # cs)" "drop (length old) (c # cs) = r"
    unfolding e [symmetric] by simp_all
  then show ?thesis
    unfolding e using assms by (simp add: str_replace_Cons)
qed

lemma str_replace_miss:
  "old \<noteq> [] \<Longrightarrow> \<not> prefix old (c # cs) \<Longrightarrow> str_replace old new (c # cs) = c # str_replace old new cs"
  by (simp add: str_replace_Cons)

lemma str_replace_absent:
  "old \<noteq> [] \<Longrightarrow> (\<And>d. \<not> prefix old (drop d s)) \<Longrightarrow> str_replace old new s = s"
proof (induction s)
  case Nil
  then show ?case by simp
next
  case (Cons c cs)
  from Cons.prems(2) [of 0] have "\<not> prefix old (c # cs)" by simp
  moreover have "str_replace old new cs = cs"
  proof (rule Cons.IH [OF Cons.prems(1)])
    fix d show "\<not> prefix old (drop d cs)" using Cons.prems(2) [of "Suc d"] by simp
  qed
  ultimately show ?case using Cons.prems(1) by (simp add: str_replace_miss)
qed

lemma no_match_no_prefix:
  assumes "match_text x" "match_at s = None"
  shows "\<not> prefix x s"
proof
  assume "prefix x s"
  then obtain r where "s = x @ r" by (auto simp: prefix_def)
  with match_at_prefix [OF assms(1), of r] assms(2) show False by auto
qed

lemma str_replace_no_match:
  assumes "match_text x" "finditer s = []"
  shows "str_replace x new s = s"
proof (rule str_replace_absent)
  show "x \<noteq> []" using assms(1) by (rule match_text_nonempty)
next
  fix d
  show "\<not> prefix x (drop d s)"
    using assms(1) finditer_Nil_suffix [OF assms(2)] by (rule no_match_no_prefix)
qed

lemma single_match_replace:
  "finditer s = [m] \<Longrightarrow>
     \<exists>pre post. s = pre @ group0 m @ post \<and> str_replace (group0 m) new s = pre @ new @ post"
proof (induction s rule: finditer_cases)
  case Nil
  then show ?case by simp
next
  case (Miss c cs)
  have mt: "match_text (group0 m)"
    using Miss.prems finditer_match_text [of m "c # cs"] by simp
  then have ne: "group0 m \<noteq> []" by (rule match_text_nonempty)
  from Miss.prems Miss.hyps have "finditer cs = [m]" by (simp add: finditer_miss)
  from Miss.IH [OF this] obtain pre post
    where "cs = pre @ group0 m @ post" "str_replace (group0 m) new cs = pre @ new @ post"
    by blast
  moreover have "\<not> prefix (group0 m) (c # cs)"
    using mt Miss.hyps by (rule no_match_no_prefix)
  ultimately have "c # cs = (c # pre) @ group0 m @ post
      \<and> str_replace (group0 m) new (c # cs) = (c # pre) @ new @ post"
    using ne by (simp add: str_replace_miss)
  then show ?case by blast
next
  case (Hit c cs m' rest)
  from Hit.prems Hit.hyps have m': "m' = m" and r: "finditer rest = []"
    by (simp_all add: finditer_hit)
  from match_at_Some [OF Hit.hyps] m' have s: "c # cs = group0 m @ rest"
    and mt: "match_text (group0 m)" by simp_all
  from mt have ne: "group0 m \<noteq> []" by (rule match_text_nonempty)
  have "str_replace (group0 m) new (group0 m @ rest) = new @ rest"
    using ne mt r by (simp add: str_replace_hit str_replace_no_match)
  with s have "c # cs = [] @ group0 m @ rest
      \<and> str_replace (group0 m) new (c # cs) = [] @ new @ rest" by simp
  then show ?case by blast
qed


section \<open>What \<open>update_file\<close> does to one file\<close>

text \<open>The world a call leaves, and the events it added to the log.\<close>

fun world_of :: "'a result \<Rightarrow> world" where
  "world_of (Raised e w) = w"
| "world_of (Returned x w) = w"

definition events_since :: "world \<Rightarrow> 'a result \<Rightarrow> event list" where
  "events_since w r = drop (length (log w)) (log (world_of r))"

text \<open>
  The text the loop of \<open>update_file\<close> leaves in \<open>new_content\<close> when every round
  computes the relative path \<open>rel\<close>.
\<close>

definition rewrite_text :: "string \<Rightarrow> string \<Rightarrow> string" where
  "rewrite_text rel content =
     foldl (\<lambda>new_content m. str_replace (group0 m) (replacement_for rel) new_content)
       content (finditer content)"


fun is_write :: "event \<Rightarrow> bool" where
  "is_write (OpenWrite p c) = True"
| "is_write e = False"

lemma calculate_relative_path_returns:
  obtains rel where "calculate_relative_path c from_file to_file = Inr rel"
  using calculate_relative_path_eq [of c to_file from_file] by blast

lemma emit_simps [simp]:
  "cwd (emit e w) = cwd w" "files (emit e w) = files w" "tree (emit e w) = tree w"
  "linesep (emit e w) = linesep w"
  "log (emit e w) = log w @ [e]"
  by (simp_all add: emit_def)

lemma replace_matches_eq:
  assumes "calculate_relative_path (cwd w) p t = Inr rel"
  shows "replace_matches p t ms c w =
     Returned (foldl (\<lambda>new_content m. str_replace (group0 m) (replacement_for rel) new_content) c ms)
       (w\<lparr>log := log w @ map (\<lambda>m. Updated p (group0 m) (replacement_for rel)) ms\<rparr>)"
  using assms
proof (induction ms arbitrary: c w)
  case Nil
  then show ?case by simp
next
  case (Cons m ms)
  from Cons.prems have "calculate_relative_path (cwd (emit (Updated p (group0 m) (replacement_for rel)) w)) p t = Inr rel"
    by simp
  from Cons.IH [OF this] Cons.prems show ?case
    by (simp add: emit_def Let_def)
qed

lemma update_file_unreadable:
  assumes "files w p = None \<or> (\<exists>f. files w p = Some f \<and> \<not> readable f)"
  shows "update_file p t w = Raised (ReadFailed p) (emit (OpenRead p) w)"
  using assms by (auto simp: update_file_def read_file_def)

lemma update_file_no_match:
  assumes "files w p = Some f" "readable f" "finditer (read_text f) = []"
  shows "update_file p t w = Returned () (w\<lparr>log := log w @ [OpenRead p, NoMatch p]\<rparr>)"
  using assms by (simp add: update_file_def read_file_def emit_def)

lemma update_file_match:
  assumes "files w p = Some f" "readable f" "finditer (read_text f) \<noteq> []"
    and "calculate_relative_path (cwd w) p t = Inr rel"
  shows "update_file p t w =
    (let new_content = rewrite_text rel (read_text f);
         w2 = w\<lparr>log := log w @ OpenRead p
                  # map (\<lambda>m. Updated p (group0 m) (replacement_for rel)) (finditer (read_text f))
                  @ [OpenWrite p new_content]\<rparr>
     in if writable f
        then Returned ()
               (w2\<lparr>files := (files w)
                     (p \<mapsto> f\<lparr>file_text := write_newlines (linesep w) new_content\<rparr>)\<rparr>)
        else Raised (WriteFailed p) w2)"
proof -
  have "calculate_relative_path (cwd (emit (OpenRead p) w)) p t = Inr rel"
    using assms(4) by simp
  from replace_matches_eq [OF this] assms(1-3) show ?thesis
    by (simp add: update_file_def read_file_def write_file_def rewrite_text_def emit_def Let_def)
qed


text \<open>\<open>update_file\<close> reads the file and \<open>finditer\<close> finds a match in it.\<close>

definition finds_match :: "world \<Rightarrow> string \<Rightarrow> bool" where
  "finds_match w p =
     (case files w p of
        None \<Rightarrow> False
      | Some f \<Rightarrow> readable f \<and> finditer (read_text f) \<noteq> [])"

text \<open>
  A small project for the examples: the working directory is the project root, and the
  data file has moved to \<open>src/data\<close>.
\<close>

definition example_target :: string where
  "example_target = ''/home/u/proj/src/data/medicaid_rules_2025.json''"

definition example_main_ts :: file_state where
  "example_main_ts =
     \<lparr>file_text = ''const rules = require('' @ [squote] @ ''../old/medicaid_rules_2025.json''
                     @ [squote] @ '');'',
      readable = True, writable = True\<rparr>"

definition example_notes :: file_state where
  "example_notes = \<lparr>file_text = ''let x = 1;'', readable = True, writable = True\<rparr>"

definition example_world :: world where
  "example_world =
     \<lparr>cwd = ''/home/u/proj'',
      linesep = [CHR 0x0A],
      tree = Dir [''README.md'']
               [(''src'', Dir [''util.js'']
                   [(''app'', Dir [''main.ts'', ''notes.txt''] []),
                    (''data'', Dir [''medicaid_rules_2025.json''] [])])],
      files = [''./src/app/main.ts'' \<mapsto> example_main_ts,
               ''./src/util.js'' \<mapsto> example_notes,
               ''./src/app/notes.txt'' \<mapsto> example_notes],
      log = []\<rparr>"

text \<open>
  C3. \<open>update_file\<close> opens the file for writing if and only if it could read the
  file and found at least one match. When it finds none (or cannot read the file) the
  file system is left exactly as it was; for a readable file without a match the call
  returns having only logged the read and printed the no-match line.
\<close>

theorem write_iff_match:
  "(list_ex is_write (events_since w (update_file p t w)) \<longleftrightarrow> finds_match w p)
   \<and> (\<not> finds_match w p \<longrightarrow> files (world_of (update_file p t w)) = files w)
   \<and> (files w p = Some f \<and> readable f \<and> finditer (read_text f) = []
        \<longrightarrow> update_file p t w = Returned () (w\<lparr>log := log w @ [OpenRead p, NoMatch p]\<rparr>))"
proof -
  consider (unreadable) "files w p = None \<or> (\<exists>f. files w p = Some f \<and> \<not> readable f)"
    | (nomatch) g where "files w p = Some g" "readable g" "finditer (read_text g) = []"
    | (match) g where "files w p = Some g" "readable g" "finditer (read_text g) \<noteq> []"
    by (cases "files w p") auto
  then show ?thesis
  proof cases
    case unreadable
    then have "\<not> finds_match w p" by (auto simp: finds_match_def)
    with unreadable show ?thesis
      by (auto simp: update_file_unreadable events_since_def)
  next
    case nomatch
    then have "\<not> finds_match w p" by (simp add: finds_match_def)
    with nomatch show ?thesis
      by (auto simp: update_file_no_match events_since_def)
  next
    case match
    then have fm: "finds_match w p" by (simp add: finds_match_def)
    obtain rel where rel: "calculate_relative_path (cwd w) p t = Inr rel"
      by (rule calculate_relative_path_returns)
    have "list_ex is_write (events_since w (update_file p t w))"
      unfolding update_file_match [OF match rel] events_since_def Let_def
      by (simp add: list_ex_iff)
    with fm match show ?thesis by auto
  qed
qed

theorem write_iff_match_witness:
  "finditer (read_text example_notes) = []
   \<and> update_file ''./src/util.js'' example_target example_world
       = Returned () (example_world\<lparr>log := [OpenRead ''./src/util.js'', NoMatch ''./src/util.js'']\<rparr>)
   \<and> \<not> list_ex is_write
         (events_since example_world (update_file ''./src/util.js'' example_target example_world))
   \<and> list_ex is_write
         (events_since example_world (update_file ''./src/app/main.ts'' example_target example_world))"
proof -
  have n: "finditer (read_text example_notes) = []"
    by code_simp
  have f: "files example_world ''./src/util.js'' = Some example_notes" "readable example_notes"
    by (simp_all add: example_world_def example_notes_def)
  have nm: "\<not> finds_match example_world ''./src/util.js''"
    using n f by (simp add: finds_match_def)
  have m: "finds_match example_world ''./src/app/main.ts''"
    by code_simp
  have l: "log example_world = []"
    by (simp add: example_world_def)
  from write_iff_match [of example_world "''./src/util.js''" example_target example_notes]
    write_iff_match [of example_world "''./src/app/main.ts''" example_target example_notes]
    n f nm m l
  show ?thesis by (auto simp: events_since_def)
qed


lemma universal_newlines_id: "CHR 0x0D \<notin> set s \<Longrightarrow> universal_newlines s = s"
  by (induction s rule: universal_newlines.induct) auto

lemma write_newlines_lf: "write_newlines [CHR 0x0A] s = s"
  by (induction s) (auto simp: write_newlines_def)

text \<open>The example file stored with CR LF line endings, on the same host.\<close>

definition example_crlf :: file_state where
  "example_crlf =
     \<lparr>file_text = (''a;'' @ [CHR 0x0D, CHR 0x0A] @ ''x = '')
                   @ (''require('' @ [squote] @ ''../old/medicaid_rules_2025.json'' @ [squote] @ '')'')
                   @ ('';'' @ [CHR 0x0D, CHR 0x0A]),
      readable = True, writable = True\<rparr>"

definition example_crlf_world :: world where
  "example_crlf_world = example_world\<lparr>files := [''./src/app/main.ts'' \<mapsto> example_crlf]\<rparr>"

text \<open>
  C1, as the claim states it, fails for a file that holds a carriage return: the file is
  read and written in text mode, so on a host whose line separator is LF a file with
  CR LF line endings and one match is written back with LF endings. The output differs
  from the input in more than the matched substring.
\<close>

theorem single_match_rewrite_counterexample:
  "map group0 (finditer (file_text example_crlf))
     = [''require('' @ [squote] @ ''../old/medicaid_rules_2025.json'' @ [squote] @ '')'']
   \<and> map_option file_text
        (files (world_of (update_file ''./src/app/main.ts'' example_target example_crlf_world))
           ''./src/app/main.ts'')
       = Some ((''a;'' @ [CHR 0x0A] @ ''x = '')
                 @ (''require('' @ [squote] @ ''../data/medicaid_rules_2025.json'' @ [squote] @ '')'')
                 @ ('';'' @ [CHR 0x0A]))
   \<and> map_option file_text
        (files (world_of (update_file ''./src/app/main.ts'' example_target example_crlf_world))
           ''./src/app/main.ts'')
       \<noteq> Some ((''a;'' @ [CHR 0x0D, CHR 0x0A] @ ''x = '')
                 @ (''require('' @ [squote] @ ''../data/medicaid_rules_2025.json'' @ [squote] @ '')'')
                 @ ('';'' @ [CHR 0x0D, CHR 0x0A]))"
proof -
  have m: "map group0 (finditer (file_text example_crlf))
     = [''require('' @ [squote] @ ''../old/medicaid_rules_2025.json'' @ [squote] @ '')'']"
    by code_simp
  have c: "calculate_relative_path (cwd example_crlf_world) ''./src/app/main.ts'' example_target
      = Inr ''../data/medicaid_rules_2025.json''"
    by code_simp
  have f: "files example_crlf_world ''./src/app/main.ts'' = Some example_crlf"
    "readable example_crlf" "writable example_crlf"
    by (simp_all add: example_crlf_world_def example_crlf_def)
  have ne: "finditer (read_text example_crlf) \<noteq> []"
    by code_simp
  have rt: "rewrite_text ''../data/medicaid_rules_2025.json'' (read_text example_crlf)
      = (''a;'' @ [CHR 0x0A] @ ''x = '')
          @ (''require('' @ [squote] @ ''../data/medicaid_rules_2025.json'' @ [squote] @ '')'')
          @ ('';'' @ [CHR 0x0A])"
    by code_simp
  have l: "linesep example_crlf_world = [CHR 0x0A]"
    by (simp add: example_crlf_world_def example_world_def)
  have "map_option file_text
        (files (world_of (update_file ''./src/app/main.ts'' example_target example_crlf_world))
           ''./src/app/main.ts'')
       = Some ((''a;'' @ [CHR 0x0A] @ ''x = '')
                 @ (''require('' @ [squote] @ ''../data/medicaid_rules_2025.json'' @ [squote] @ '')'')
                 @ ('';'' @ [CHR 0x0A]))"
    unfolding update_file_match [OF f(1,2) ne c] Let_def rt l write_newlines_lf
    using f(3) by simp
  note e = this
  have d: "map_option file_text
        (files (world_of (update_file ''./src/app/main.ts'' example_target example_crlf_world))
           ''./src/app/main.ts'')
       \<noteq> Some ((''a;'' @ [CHR 0x0D, CHR 0x0A] @ ''x = '')
                 @ (''require('' @ [squote] @ ''../data/medicaid_rules_2025.json'' @ [squote] @ '')'')
                 @ ('';'' @ [CHR 0x0D, CHR 0x0A]))"
    unfolding e by simp
  from m e d show ?thesis by (intro conjI)
qed

text \<open>
  C1 (amended). When \<open>finditer\<close> finds exactly one match in the text read from a file
  that can be read and written, \<open>update_file\<close> returns, and the text it writes is the
  text it read with the matched substring replaced by \<open>require('\<close>\<open>rel\<close>\<open>')\<close>, where
  \<open>rel\<close> is the result of \<open>calculate_relative_path\<close> for the file and the target;
  everything before and behind the match is unchanged. The text read is the stored text
  with universal newlines, and the text is stored with every LF written as the line
  separator of the host: for a file that holds no carriage return, on a host whose
  separator is LF, the stored output is the stored input with the match replaced.
\<close>

theorem single_match_rewrite:
  "files w p = Some f \<and> readable f \<and> writable f \<and> finditer (read_text f) = [m] \<longrightarrow>
     (\<exists>rel pre post.
        calculate_relative_path (cwd w) p t = Inr rel
        \<and> read_text f = pre @ group0 m @ post
        \<and> update_file p t w = Returned ()
            (w\<lparr>files := (files w)(p \<mapsto> f\<lparr>file_text := write_newlines (linesep w)
                    (pre @ (''require('' @ [squote] @ rel @ [squote] @ '')'') @ post)\<rparr>),
               log := log w @
                 [OpenRead p,
                  Updated p (group0 m) (''require('' @ [squote] @ rel @ [squote] @ '')''),
                  OpenWrite p (pre @ (''require('' @ [squote] @ rel @ [squote] @ '')'') @ post)]\<rparr>)
        \<and> (CHR 0x0D \<notin> set (file_text f) \<and> linesep w = [CHR 0x0A] \<longrightarrow>
             file_text f = pre @ group0 m @ post
             \<and> write_newlines (linesep w)
                  (pre @ (''require('' @ [squote] @ rel @ [squote] @ '')'') @ post)
                = pre @ (''require('' @ [squote] @ rel @ [squote] @ '')'') @ post))"
proof (intro impI)
  assume a: "files w p = Some f \<and> readable f \<and> writable f \<and> finditer (read_text f) = [m]"
  then have f: "files w p = Some f" "readable f" and wr: "writable f"
    and fi: "finditer (read_text f) = [m]" and ne: "finditer (read_text f) \<noteq> []"
    by simp_all
  obtain rel where rel: "calculate_relative_path (cwd w) p t = Inr rel"
    by (rule calculate_relative_path_returns)
  from single_match_replace [OF fi, of "replacement_for rel"] obtain pre post
    where pp: "read_text f = pre @ group0 m @ post"
      and sr: "str_replace (group0 m) (replacement_for rel) (read_text f) = pre @ replacement_for rel @ post"
    by blast
  have rt: "rewrite_text rel (read_text f) = pre @ replacement_for rel @ post"
    by (simp add: rewrite_text_def fi sr)
  have u: "update_file p t w = Returned ()
            (w\<lparr>files := (files w)(p \<mapsto> f\<lparr>file_text := write_newlines (linesep w)
                    (pre @ replacement_for rel @ post)\<rparr>),
               log := log w @
                 [OpenRead p, Updated p (group0 m) (replacement_for rel),
                  OpenWrite p (pre @ replacement_for rel @ post)]\<rparr>)"
    unfolding update_file_match [OF f ne rel] Let_def rt using wr by (simp add: fi)
  have n: "file_text f = pre @ group0 m @ post
      \<and> write_newlines (linesep w) (pre @ replacement_for rel @ post)
          = pre @ replacement_for rel @ post"
    if "CHR 0x0D \<notin> set (file_text f) \<and> linesep w = [CHR 0x0A]"
    using that pp by (simp add: read_text_def universal_newlines_id write_newlines_lf)
  show "\<exists>rel pre post.
        calculate_relative_path (cwd w) p t = Inr rel
        \<and> read_text f = pre @ group0 m @ post
        \<and> update_file p t w = Returned ()
            (w\<lparr>files := (files w)(p \<mapsto> f\<lparr>file_text := write_newlines (linesep w)
                    (pre @ (''require('' @ [squote] @ rel @ [squote] @ '')'') @ post)\<rparr>),
               log := log w @
                 [OpenRead p,
                  Updated p (group0 m) (''require('' @ [squote] @ rel @ [squote] @ '')''),
                  OpenWrite p (pre @ (''require('' @ [squote] @ rel @ [squote] @ '')'') @ post)]\<rparr>)
        \<and> (CHR 0x0D \<notin> set (file_text f) \<and> linesep w = [CHR 0x0A] \<longrightarrow>
             file_text f = pre @ group0 m @ post
             \<and> write_newlines (linesep w)
                  (pre @ (''require('' @ [squote] @ rel @ [squote] @ '')'') @ post)
                = pre @ (''require('' @ [squote] @ rel @ [squote] @ '')'') @ post)"
    apply (rule exI [of _ rel])
    apply (rule exI [of _ pre])
    apply (rule exI [of _ post])
    using rel pp u n unfolding replacement_for_def
    apply blast
    done
qed

theorem single_match_rewrite_witness:
  "length (finditer (read_text example_main_ts)) = 1
   \<and> CHR 0x0D \<notin> set (file_text example_main_ts)
   \<and> linesep example_world = [CHR 0x0A]
   \<and> (\<exists>(m::rmatch) rel pre post.
        file_text example_main_ts = pre @ group0 m @ post
        \<and> calculate_relative_path (cwd example_world) ''./src/app/main.ts'' example_target = Inr rel
        \<and> map_option file_text
            (files (world_of (update_file ''./src/app/main.ts'' example_target example_world))
               ''./src/app/main.ts'')
           = Some (pre @ (''require('' @ [squote] @ rel @ [squote] @ '')'') @ post))
   \<and> map_option file_text
        (files (world_of (update_file ''./src/app/main.ts'' example_target example_world))
           ''./src/app/main.ts'')
       = Some (''const rules = require('' @ [squote] @ ''../data/medicaid_rules_2025.json''
                 @ [squote] @ '');'')"
proof -
  have one: "length (finditer (read_text example_main_ts)) = 1" by code_simp
  then obtain m where m: "finditer (read_text example_main_ts) = [m]"
    by (cases "finditer (read_text example_main_ts)") auto
  have f: "files example_world ''./src/app/main.ts'' = Some example_main_ts"
    "readable example_main_ts" "writable example_main_ts"
    by (simp_all add: example_world_def example_main_ts_def)
  have cr: "CHR 0x0D \<notin> set (file_text example_main_ts)"
    by code_simp
  have l: "linesep example_world = [CHR 0x0A]"
    by (simp add: example_world_def)
  from single_match_rewrite [of example_world "''./src/app/main.ts''" example_main_ts m example_target]
    f m cr l
  obtain rel pre post where
    r: "calculate_relative_path (cwd example_world) ''./src/app/main.ts'' example_target = Inr rel"
    and u: "update_file ''./src/app/main.ts'' example_target example_world = Returned ()
            (example_world\<lparr>files := (files example_world)(''./src/app/main.ts'' \<mapsto> example_main_ts\<lparr>file_text :=
                    write_newlines (linesep example_world)
                      (pre @ (''require('' @ [squote] @ rel @ [squote] @ '')'') @ post)\<rparr>),
               log := log example_world @
                 [OpenRead ''./src/app/main.ts'',
                  Updated ''./src/app/main.ts'' (group0 m) (''require('' @ [squote] @ rel @ [squote] @ '')''),
                  OpenWrite ''./src/app/main.ts'' (pre @ (''require('' @ [squote] @ rel @ [squote] @ '')'') @ post)]\<rparr>)"
    and pp: "file_text example_main_ts = pre @ group0 m @ post"
    and wn: "write_newlines (linesep example_world)
                  (pre @ (''require('' @ [squote] @ rel @ [squote] @ '')'') @ post)
                = pre @ (''require('' @ [squote] @ rel @ [squote] @ '')'') @ post"
    by blast
  have e: "map_option file_text
            (files (world_of (update_file ''./src/app/main.ts'' example_target example_world))
               ''./src/app/main.ts'')
           = Some (pre @ (''require('' @ [squote] @ rel @ [squote] @ '')'') @ post)"
    unfolding u wn by simp
  have ex: "\<exists>(m::rmatch) rel pre post.
        file_text example_main_ts = pre @ group0 m @ post
        \<and> calculate_relative_path (cwd example_world) ''./src/app/main.ts'' example_target = Inr rel
        \<and> map_option file_text
            (files (world_of (update_file ''./src/app/main.ts'' example_target example_world))
               ''./src/app/main.ts'')
           = Some (pre @ (''require('' @ [squote] @ rel @ [squote] @ '')'') @ post)"
    apply (rule exI [of _ m])
    apply (rule exI [of _ rel])
    apply (rule exI [of _ pre])
    apply (rule exI [of _ post])
    apply (rule conjI [OF pp conjI [OF r e]])
    done
  have x: "map_option file_text
        (files (world_of (update_file ''./src/app/main.ts'' example_target example_world))
           ''./src/app/main.ts'')
       = Some (''const rules = require('' @ [squote] @ ''../data/medicaid_rules_2025.json''
                 @ [squote] @ '');'')"
  proof -
    have c: "calculate_relative_path (cwd example_world) ''./src/app/main.ts'' example_target
        = Inr ''../data/medicaid_rules_2025.json''"
      by code_simp
    have ne: "finditer (read_text example_main_ts) \<noteq> []"
      using m by simp
    have rt: "rewrite_text ''../data/medicaid_rules_2025.json'' (read_text example_main_ts)
        = ''const rules = require('' @ [squote] @ ''../data/medicaid_rules_2025.json''
                 @ [squote] @ '');''"
      by code_simp
    show ?thesis
      unfolding update_file_match [OF f(1,2) ne c] Let_def rt l write_newlines_lf
      using f(3) by simp
  qed
  from one cr l ex x show ?thesis by (intro conjI)
qed

section \<open>The whole run\<close>

text \<open>
  The files \<open>scan_and_update_files\<close> hands to \<open>update_file\<close>: for every directory
  the walk yields, the files with one of the two extensions, joined to the directory.
\<close>

definition has_extension :: "string \<Rightarrow> bool" where
  "has_extension fname \<longleftrightarrow> endswith fname ''.js'' \<or> endswith fname ''.ts''"

definition candidates_in :: "string \<Rightarrow> string list \<Rightarrow> string list" where
  "candidates_in root fnames = map (path_join root) (filter has_extension fnames)"

definition candidates :: "string \<Rightarrow> dirtree \<Rightarrow> string list" where
  "candidates base_dir t =
     concat (map (\<lambda>(root, dirs, fnames). candidates_in root fnames)
               (os_walk (\<lambda>root dirs. dirs) base_dir t))"

text \<open>Calling \<open>update_file\<close> on a list of paths in turn; a raise ends the sequence.\<close>

fun update_all :: "string \<Rightarrow> string list \<Rightarrow> world \<Rightarrow> unit result" where
  "update_all correct_json_path [] w = Returned () w"
| "update_all correct_json_path (p # ps) w =
     (case update_file p correct_json_path w of
        Raised e w1 \<Rightarrow> Raised e w1
      | Returned u w1 \<Rightarrow> update_all correct_json_path ps w1)"

text \<open>
  \<open>in_tree t root d fname\<close>: the directory \<open>t\<close>, reached as \<open>root\<close>, holds at any depth
  a directory reached as \<open>d\<close> that lists the file \<open>fname\<close>.
\<close>

inductive in_tree :: "dirtree \<Rightarrow> string \<Rightarrow> string \<Rightarrow> string \<Rightarrow> bool" where
  here: "fname \<in> set fnames \<Longrightarrow> in_tree (Dir fnames subs) root root fname"
| below: "map_of subs name = Some t \<Longrightarrow> in_tree t (path_join root name) d fname
     \<Longrightarrow> in_tree (Dir fnames subs) root d fname"

text \<open>The path an event opens, the path it opens for reading, and whether a call returned.\<close>

fun opened :: "event \<Rightarrow> string option" where
  "opened (OpenRead p) = Some p"
| "opened (OpenWrite p c) = Some p"
| "opened e = None"

fun read_of :: "event \<Rightarrow> string option" where
  "read_of (OpenRead p) = Some p"
| "read_of e = None"

fun is_returned :: "'a result \<Rightarrow> bool" where
  "is_returned (Returned x w) = True"
| "is_returned (Raised e w) = False"

lemma update_all_append:
  "update_all t (xs @ ys) w =
     (case update_all t xs w of
        Raised e w1 \<Rightarrow> Raised e w1
      | Returned u w1 \<Rightarrow> update_all t ys w1)"
  by (induction xs arbitrary: w) (auto split: result.splits)

lemma update_files_eq: "update_files root t fnames w = update_all t (candidates_in root fnames) w"
  by (induction fnames arbitrary: w)
    (auto simp: candidates_in_def has_extension_def split: result.splits)

lemma walk_loop_eq:
  "walk_loop t triples w
     = update_all t (concat (map (\<lambda>(root, dirs, fnames). candidates_in root fnames) triples)) w"
proof (induction triples arbitrary: w)
  case Nil
  show ?case by simp
next
  case (Cons x triples)
  obtain root dirs fnames where x: "x = (root, dirs, fnames)" by (cases x)
  show ?case
    by (simp add: x update_files_eq update_all_append Cons split: result.splits)
qed

lemma scan_eq:
  "scan_and_update_files base_dir t w
     = update_all t (candidates base_dir (tree w)) (emit (Scanning (abspath (cwd w) base_dir)) w)"
  by (simp add: scan_and_update_files_def candidates_def walk_loop_eq)

text \<open>
  \<open>step_ok ps w w' es\<close>: from \<open>w\<close> to \<open>w'\<close> the log grew by \<open>es\<close>, only paths of
  \<open>ps\<close> were opened, no completion message was printed and no other file changed.
\<close>

definition step_ok :: "string list \<Rightarrow> world \<Rightarrow> world \<Rightarrow> event list \<Rightarrow> bool" where
  "step_ok ps w w' es \<longleftrightarrow>
     log w' = log w @ es \<and> cwd w' = cwd w \<and> tree w' = tree w
     \<and> set (List.map_filter opened es) \<subseteq> set ps
     \<and> Complete \<notin> set es
     \<and> (\<forall>q. q \<notin> set ps \<longrightarrow> files w' q = files w q)"

lemma map_filter_updates [simp]:
  "List.map_filter opened (map (\<lambda>m. Updated p (group0 m) r) ms) = []"
  "List.map_filter read_of (map (\<lambda>m. Updated p (group0 m) r) ms) = []"
  by (induction ms) simp_all

lemma Complete_not_update [simp]: "Complete \<notin> (\<lambda>m. Updated p (group0 m) r) ` S"
  by auto

lemma map_filter_append: "List.map_filter f (xs @ ys) = List.map_filter f xs @ List.map_filter f ys"
  by (simp add: List.map_filter_def)

lemma update_file_step:
  "\<exists>es. step_ok [p] w (world_of (update_file p t w)) es \<and> List.map_filter read_of es = [p]"
proof -
  consider (unreadable) "files w p = None \<or> (\<exists>f. files w p = Some f \<and> \<not> readable f)"
    | (nomatch) g where "files w p = Some g" "readable g" "finditer (read_text g) = []"
    | (match) g where "files w p = Some g" "readable g" "finditer (read_text g) \<noteq> []"
    by (cases "files w p") auto
  then show ?thesis
  proof cases
    case unreadable
    have "step_ok [p] w (emit (OpenRead p) w) [OpenRead p]"
      by (simp add: step_ok_def)
    then show ?thesis
      unfolding update_file_unreadable [OF unreadable]
      by (intro exI [of _ "[OpenRead p]"]) simp
  next
    case nomatch
    have "step_ok [p] w (w\<lparr>log := log w @ [OpenRead p, NoMatch p]\<rparr>) [OpenRead p, NoMatch p]"
      by (simp add: step_ok_def)
    then show ?thesis
      unfolding update_file_no_match [OF nomatch]
      by (intro exI [of _ "[OpenRead p, NoMatch p]"]) simp
  next
    case match
    obtain rel where rel: "calculate_relative_path (cwd w) p t = Inr rel"
      by (rule calculate_relative_path_returns)
    let ?es = "OpenRead p
                  # map (\<lambda>m. Updated p (group0 m) (replacement_for rel)) (finditer (read_text g))
                  @ [OpenWrite p (rewrite_text rel (read_text g))]"
    have "step_ok [p] w (world_of (update_file p t w)) ?es"
      unfolding update_file_match [OF match rel] Let_def
      by (simp add: step_ok_def map_filter_append)
    moreover have "List.map_filter read_of ?es = [p]"
      by (simp add: map_filter_append)
    ultimately show ?thesis by blast
  qed
qed

lemma step_ok_trans:
  assumes "step_ok ps w w1 es" "step_ok qs w1 w2 fs" "set ps \<subseteq> set rs" "set qs \<subseteq> set rs"
  shows "step_ok rs w w2 (es @ fs)"
proof -
  have "files w2 q = files w q" if "q \<notin> set rs" for q
  proof -
    from that assms(3,4) have "q \<notin> set ps" "q \<notin> set qs" by auto
    with assms(1,2) show ?thesis by (simp add: step_ok_def)
  qed
  moreover have "set (List.map_filter opened (es @ fs)) \<subseteq> set rs"
    using assms by (auto simp: step_ok_def map_filter_append)
  ultimately show ?thesis
    using assms(1,2) by (simp add: step_ok_def)
qed

lemma update_all_step:
  "\<exists>es. step_ok ps w (world_of (update_all t ps w)) es
     \<and> (is_returned (update_all t ps w) \<longrightarrow> List.map_filter read_of es = ps)"
proof (induction ps arbitrary: w)
  case Nil
  have "step_ok [] w w []" by (simp add: step_ok_def)
  then show ?case by (intro exI [of _ "[]"]) simp
next
  case (Cons p ps)
  from update_file_step [of p w t] obtain es
    where es: "step_ok [p] w (world_of (update_file p t w)) es" "List.map_filter read_of es = [p]"
    by blast
  show ?case
  proof (cases "update_file p t w")
    case (Raised e w1)
    with es(1) have "step_ok (p # ps) w w1 (es @ [])"
      by (intro step_ok_trans [where ps = "[p]" and qs = "[]" and ?w1.0 = w1])
        (auto simp: step_ok_def)
    with Raised show ?thesis by auto
  next
    case (Returned u w1)
    from Cons [of w1] obtain fs
      where fs: "step_ok ps w1 (world_of (update_all t ps w1)) fs"
        "is_returned (update_all t ps w1) \<longrightarrow> List.map_filter read_of fs = ps"
      by blast
    from es(1) Returned have "step_ok [p] w w1 es" by simp
    from step_ok_trans [OF this fs(1), of "p # ps"]
    have "step_ok (p # ps) w (world_of (update_all t ps w1)) (es @ fs)" by auto
    moreover have "is_returned (update_all t ps w1) \<longrightarrow> List.map_filter read_of (es @ fs) = p # ps"
      using es(2) fs(2) by (simp add: map_filter_append)
    ultimately show ?thesis using Returned by auto
  qed
qed


declare os_walk.simps [simp del]

lemma os_walk_in_tree:
  "(d, dirs, fnames) \<in> set (os_walk keep root t) \<Longrightarrow> fname \<in> set fnames \<Longrightarrow> in_tree t root d fname"
proof (induction keep root t arbitrary: d dirs fnames rule: os_walk.induct)
  case (1 keep root fs subs)
  from "1.prems"(1) have "(d = root \<and> fnames = fs)
      \<or> (\<exists>name t. name \<in> set (keep root (map fst subs)) \<and> map_of subs name = Some t
            \<and> (d, dirs, fnames) \<in> set (os_walk keep (path_join root name) t))"
    by (subst (asm) os_walk.simps) (force split: option.splits)
  then consider (head) "d = root" "fnames = fs"
    | (sub) name t where "name \<in> set (keep root (map fst subs))" "map_of subs name = Some t"
        "(d, dirs, fnames) \<in> set (os_walk keep (path_join root name) t)"
    by blast
  then show ?case
  proof cases
    case head
    with "1.prems"(2) show ?thesis by (auto intro: in_tree.here)
  next
    case sub
    from "1.IH" [OF sub(1,2,3) "1.prems"(2)] sub(2) show ?thesis
      by (auto intro: in_tree.below)
  qed
qed

lemma in_tree_os_walk:
  "in_tree t root d fname \<Longrightarrow>
     \<exists>dirs fnames. (d, dirs, fnames) \<in> set (os_walk (\<lambda>root dirs. dirs) root t) \<and> fname \<in> set fnames"
proof (induction rule: in_tree.induct)
  case (here fname fnames subs root)
  then show ?case by (subst os_walk.simps) auto
next
  case (below subs name t root d fname fnames)
  then obtain dirs fs where x: "(d, dirs, fs) \<in> set (os_walk (\<lambda>root dirs. dirs) (path_join root name) t)"
    "fname \<in> set fs" by blast
  from below.hyps(1) have "name \<in> set (map fst subs)"
    by (metis map_of_SomeD image_eqI fst_conv set_map)
  with x below.hyps(1) have "(d, dirs, fs) \<in> set (os_walk (\<lambda>root dirs. dirs) root (Dir fnames subs))"
    by (subst os_walk.simps) force
  with x(2) show ?case by blast
qed

lemma candidates_iff:
  "p \<in> set (candidates base_dir t) \<longleftrightarrow>
     (\<exists>d fname. in_tree t base_dir d fname \<and> has_extension fname \<and> p = path_join d fname)"
proof
  assume "p \<in> set (candidates base_dir t)"
  then obtain d dirs fnames fname
    where "(d, dirs, fnames) \<in> set (os_walk (\<lambda>root dirs. dirs) base_dir t)"
      "fname \<in> set fnames" "has_extension fname" "p = path_join d fname"
    by (auto simp: candidates_def candidates_in_def)
  then show "\<exists>d fname. in_tree t base_dir d fname \<and> has_extension fname \<and> p = path_join d fname"
    using os_walk_in_tree by blast
next
  assume "\<exists>d fname. in_tree t base_dir d fname \<and> has_extension fname \<and> p = path_join d fname"
  then obtain d fname where i: "in_tree t base_dir d fname" and h: "has_extension fname"
    and p: "p = path_join d fname" by blast
  from in_tree_os_walk [OF i] obtain dirs fnames
    where "(d, dirs, fnames) \<in> set (os_walk (\<lambda>root dirs. dirs) base_dir t)" "fname \<in> set fnames"
    by blast
  with h p show "p \<in> set (candidates base_dir t)"
    by (force simp: candidates_def candidates_in_def)
qed

lemma suffix_path_join: "suffix b (path_join a b)"
  by (auto simp: path_join_def suffix_def)

lemma candidate_extension:
  assumes "p \<in> set (candidates base_dir t)"
  shows "endswith p ''.js'' \<or> endswith p ''.ts''"
proof -
  from assms obtain d fname where h: "has_extension fname" and p: "p = path_join d fname"
    by (auto simp: candidates_iff)
  have "suffix fname p" unfolding p by (rule suffix_path_join)
  with h show ?thesis
    unfolding has_extension_def endswith_def by (meson suffix_order.trans)
qed

lemma scan_step:
  "\<exists>es. step_ok (candidates base_dir (tree w)) w
           (world_of (scan_and_update_files base_dir t w)) (Scanning (abspath (cwd w) base_dir) # es)
     \<and> events_since w (scan_and_update_files base_dir t w) = Scanning (abspath (cwd w) base_dir) # es
     \<and> (is_returned (scan_and_update_files base_dir t w)
          \<longrightarrow> List.map_filter read_of es = candidates base_dir (tree w))"
proof -
  let ?w0 = "emit (Scanning (abspath (cwd w) base_dir)) w"
  let ?ps = "candidates base_dir (tree w)"
  from update_all_step [of ?ps ?w0 t] obtain es
    where es: "step_ok ?ps ?w0 (world_of (update_all t ?ps ?w0)) es"
      "is_returned (update_all t ?ps ?w0) \<longrightarrow> List.map_filter read_of es = ?ps"
    by blast
  have "step_ok ?ps w (world_of (update_all t ?ps ?w0)) (Scanning (abspath (cwd w) base_dir) # es)"
    using es(1) by (simp add: step_ok_def)
  moreover from this
  have "events_since w (update_all t ?ps ?w0) = Scanning (abspath (cwd w) base_dir) # es"
    by (simp add: step_ok_def events_since_def)
  ultimately show ?thesis
    using es(2) unfolding scan_eq by blast
qed

text \<open>
  C7. The candidates are exactly the files found at any depth under the root whose names
  end in \<open>.js\<close> or \<open>.ts\<close>; \<open>scan_and_update_files\<close> calls \<open>update_file\<close> on the
  candidates in walk order, so a run that returns has read each of them once, in that
  order. No run opens a path that is not a candidate; a path that ends in neither
  extension is never opened, and the file it names is left as it was.
\<close>

theorem scan_visits_candidates:
  "(p \<in> set (candidates base_dir (tree w)) \<longleftrightarrow>
      (\<exists>d fname. in_tree (tree w) base_dir d fname \<and> has_extension fname \<and> p = path_join d fname))
   \<and> scan_and_update_files base_dir t w
       = update_all t (candidates base_dir (tree w)) (emit (Scanning (abspath (cwd w) base_dir)) w)
   \<and> (is_returned (scan_and_update_files base_dir t w) \<longrightarrow>
        List.map_filter read_of (events_since w (scan_and_update_files base_dir t w))
          = candidates base_dir (tree w))
   \<and> set (List.map_filter opened (events_since w (scan_and_update_files base_dir t w)))
        \<subseteq> set (candidates base_dir (tree w))
   \<and> (\<not> (endswith q ''.js'' \<or> endswith q ''.ts'') \<longrightarrow>
        q \<notin> set (List.map_filter opened (events_since w (scan_and_update_files base_dir t w)))
        \<and> files (world_of (scan_and_update_files base_dir t w)) q = files w q)"
proof -
  let ?r = "scan_and_update_files base_dir t w"
  let ?ps = "candidates base_dir (tree w)"
  from scan_step [of base_dir w t] obtain es
    where s: "step_ok ?ps w (world_of ?r) (Scanning (abspath (cwd w) base_dir) # es)"
      and e: "events_since w ?r = Scanning (abspath (cwd w) base_dir) # es"
      and r: "is_returned ?r \<longrightarrow> List.map_filter read_of es = ?ps"
    by blast
  have o: "set (List.map_filter opened (events_since w ?r)) \<subseteq> set ?ps"
    using s unfolding e by (simp add: step_ok_def)
  have "q \<notin> set (List.map_filter opened (events_since w ?r)) \<and> files (world_of ?r) q = files w q"
    if "\<not> (endswith q ''.js'' \<or> endswith q ''.ts'')"
  proof -
    from that have "q \<notin> set ?ps" using candidate_extension by blast
    with o s show ?thesis by (auto simp: step_ok_def)
  qed
  moreover have "is_returned ?r \<longrightarrow> List.map_filter read_of (events_since w ?r) = ?ps"
    using r unfolding e by simp
  ultimately show ?thesis
    using o candidates_iff [of p base_dir "tree w"] scan_eq [of base_dir t w] by blast
qed


text \<open>The target path the main block computes, and when \<open>update_file\<close> cannot go on.\<close>

definition full_json_path :: "world \<Rightarrow> string" where
  "full_json_path w = abspath (cwd w) (path_join project_root correct_path)"

definition io_fails :: "world \<Rightarrow> string \<Rightarrow> bool" where
  "io_fails w p =
     (case files w p of
        None \<Rightarrow> True
      | Some f \<Rightarrow> \<not> readable f \<or> (finditer (read_text f) \<noteq> [] \<and> \<not> writable f))"

lemma update_file_raises_iff: "(\<not> is_returned (update_file p t w)) \<longleftrightarrow> io_fails w p"
proof -
  consider (unreadable) "files w p = None \<or> (\<exists>f. files w p = Some f \<and> \<not> readable f)"
    | (nomatch) g where "files w p = Some g" "readable g" "finditer (read_text g) = []"
    | (match) g where "files w p = Some g" "readable g" "finditer (read_text g) \<noteq> []"
    by (cases "files w p") auto
  then show ?thesis
  proof cases
    case unreadable
    then show ?thesis
      by (auto simp: update_file_unreadable io_fails_def)
  next
    case nomatch
    then show ?thesis
      by (simp add: update_file_no_match io_fails_def)
  next
    case match
    obtain rel where rel: "calculate_relative_path (cwd w) p t = Inr rel"
      by (rule calculate_relative_path_returns)
    show ?thesis
      unfolding update_file_match [OF match rel] Let_def
      using match by (simp add: io_fails_def)
  qed
qed

theorem scan_visits_candidates_witness:
  "candidates ''.'' (tree example_world) = [''./src/util.js'', ''./src/app/main.ts'']
   \<and> in_tree (tree example_world) ''.'' ''./src/app'' ''notes.txt''
   \<and> is_returned (scan_and_update_files ''.'' example_target example_world)
   \<and> List.map_filter read_of
         (events_since example_world (scan_and_update_files ''.'' example_target example_world))
       = [''./src/util.js'', ''./src/app/main.ts'']
   \<and> ''./src/app/notes.txt'' \<notin> set (List.map_filter opened
         (events_since example_world (scan_and_update_files ''.'' example_target example_world)))
   \<and> files (world_of (scan_and_update_files ''.'' example_target example_world)) ''./src/app/notes.txt''
       = files example_world ''./src/app/notes.txt''"
proof -
  have c: "candidates ''.'' (tree example_world) = [''./src/util.js'', ''./src/app/main.ts'']"
    by code_simp
  have r: "is_returned (scan_and_update_files ''.'' example_target example_world)"
  proof -
    let ?w0 = "emit (Scanning (abspath (cwd example_world) ''.'')) example_world"
    let ?w1 = "?w0\<lparr>log := log ?w0 @ [OpenRead ''./src/util.js'', NoMatch ''./src/util.js'']\<rparr>"
    have n: "finditer (read_text example_notes) = []" by code_simp
    have "files ?w0 ''./src/util.js'' = Some example_notes" "readable example_notes"
      by (simp_all add: example_world_def example_notes_def)
    from update_file_no_match [OF this n]
    have u: "update_file ''./src/util.js'' example_target ?w0 = Returned () ?w1" .
    have "\<not> io_fails ?w1 ''./src/app/main.ts''"
      by (simp add: io_fails_def example_world_def example_main_ts_def)
    then have "is_returned (update_file ''./src/app/main.ts'' example_target ?w1)"
      using update_file_raises_iff by blast
    then have "is_returned (update_all example_target [''./src/util.js'', ''./src/app/main.ts''] ?w0)"
      unfolding update_all.simps u
      by (cases "update_file ''./src/app/main.ts'' example_target ?w1") simp_all
    then show ?thesis
      unfolding scan_eq c .
  qed
  have x: "\<not> (endswith ''./src/app/notes.txt'' ''.js'' \<or> endswith ''./src/app/notes.txt'' ''.ts'')"
    by code_simp
  have pj: "path_join ''./src'' ''app'' = ''./src/app''" "path_join ''.'' ''src'' = ''./src''"
    by code_simp+
  have "in_tree (Dir [''main.ts'', ''notes.txt''] []) (path_join ''./src'' ''app'') ''./src/app'' ''notes.txt''"
    unfolding pj by (rule in_tree.here) simp
  then have "in_tree (Dir [''util.js'']
                   [(''app'', Dir [''main.ts'', ''notes.txt''] []),
                    (''data'', Dir [''medicaid_rules_2025.json''] [])]) ''./src'' ''./src/app'' ''notes.txt''"
    by (rule in_tree.below [rotated]) simp
  then have "in_tree (tree example_world) ''.'' ''./src/app'' ''notes.txt''"
    unfolding example_world_def pj(2) [symmetric]
    by (simp, rule in_tree.below [rotated]) simp_all
  then have i: "in_tree (tree example_world) ''.'' ''./src/app'' ''notes.txt''" .
  from scan_visits_candidates
    [of "''./src/util.js''" "''.''" example_world example_target "''./src/app/notes.txt''"]
  have "is_returned (scan_and_update_files ''.'' example_target example_world) \<longrightarrow>
        List.map_filter read_of
          (events_since example_world (scan_and_update_files ''.'' example_target example_world))
          = candidates ''.'' (tree example_world)"
    and "\<not> (endswith ''./src/app/notes.txt'' ''.js'' \<or> endswith ''./src/app/notes.txt'' ''.ts'') \<longrightarrow>
        ''./src/app/notes.txt'' \<notin> set (List.map_filter opened
          (events_since example_world (scan_and_update_files ''.'' example_target example_world)))
        \<and> files (world_of (scan_and_update_files ''.'' example_target example_world))
             ''./src/app/notes.txt'' = files example_world ''./src/app/notes.txt''"
    by blast+
  with c r x i show ?thesis by simp
qed

text \<open>
  C8. \<open>update_file\<close> raises exactly when the read fails, or a match was found and the
  write fails. When it raises on a candidate (all earlier candidates having been
  processed), \<open>scan_and_update_files\<close> and the main block raise the same error and
  leave the world as it was at that moment: no later candidate is opened and the
  completion message is not printed.
\<close>

theorem failure_stops_run:
  "(\<not> is_returned (update_file p t w) \<longleftrightarrow> io_fails w p)
   \<and> (candidates project_root (tree w) = xs @ p # ys
        \<and> update_all (full_json_path w) xs (emit (Scanning (abspath (cwd w) project_root)) w)
            = Returned () w1
        \<and> update_file p (full_json_path w) w1 = Raised e w2
      \<longrightarrow> scan_and_update_files project_root (full_json_path w) w = Raised e w2
          \<and> main w = Raised e w2
          \<and> Complete \<notin> set (events_since w (main w))
          \<and> set (List.map_filter opened (events_since w (main w))) \<subseteq> set (xs @ [p]))"
proof -
  let ?t = "full_json_path w"
  let ?w0 = "emit (Scanning (abspath (cwd w) project_root)) w"
  have "scan_and_update_files project_root ?t w = Raised e w2
          \<and> main w = Raised e w2
          \<and> Complete \<notin> set (events_since w (main w))
          \<and> set (List.map_filter opened (events_since w (main w))) \<subseteq> set (xs @ [p])"
    if c: "candidates project_root (tree w) = xs @ p # ys"
      and a: "update_all ?t xs ?w0 = Returned () w1"
      and u: "update_file p ?t w1 = Raised e w2"
  proof -
    have s: "scan_and_update_files project_root ?t w = Raised e w2"
      unfolding scan_eq c update_all_append using a u by simp
    then have m: "main w = Raised e w2"
      by (simp add: main_def full_json_path_def)
    have ap: "update_all ?t (xs @ [p]) ?w0 = Raised e w2"
      unfolding update_all_append using a u by simp
    from update_all_step [of "xs @ [p]" ?w0 ?t] obtain es
      where "step_ok (xs @ [p]) ?w0 w2 es"
      unfolding ap by auto
    then have l: "log w2 = log w @ Scanning (abspath (cwd w) project_root) # es"
      and o: "set (List.map_filter opened es) \<subseteq> set (xs @ [p])" and n: "Complete \<notin> set es"
      by (simp_all add: step_ok_def)
    have "events_since w (main w) = Scanning (abspath (cwd w) project_root) # es"
      unfolding m by (simp add: events_since_def l)
    with s m o n show ?thesis by simp
  qed
  then show ?thesis
    using update_file_raises_iff [of p t w] by blast
qed

text \<open>The example project with an unreadable \<open>src/util.js\<close>.\<close>

definition example_broken :: world where
  "example_broken =
     example_world\<lparr>files := (files example_world)
       (''./src/util.js'' \<mapsto> example_notes\<lparr>readable := False\<rparr>)\<rparr>"

theorem failure_stops_run_witness:
  "io_fails example_broken ''./src/util.js''
   \<and> candidates project_root (tree example_broken) = [] @ ''./src/util.js'' # [''./src/app/main.ts'']
   \<and> main example_broken
       = Raised (ReadFailed ''./src/util.js'')
           (example_broken\<lparr>log := [Scanning ''/home/u/proj'', OpenRead ''./src/util.js'']\<rparr>)
   \<and> Complete \<notin> set (events_since example_broken (main example_broken))
   \<and> files (world_of (main example_broken)) ''./src/app/main.ts'' = Some example_main_ts"
proof -
  let ?w0 = "emit (Scanning (abspath (cwd example_broken) project_root)) example_broken"
  have f: "files example_broken ''./src/util.js'' = Some (example_notes\<lparr>readable := False\<rparr>)"
    by (simp add: example_broken_def)
  then have i: "io_fails example_broken ''./src/util.js''"
    by (simp add: io_fails_def)
  have c: "candidates project_root (tree example_broken) = [] @ ''./src/util.js'' # [''./src/app/main.ts'']"
    by code_simp
  have a: "update_all (full_json_path example_broken) [] ?w0 = Returned () ?w0"
    by simp
  have u: "update_file ''./src/util.js'' (full_json_path example_broken) ?w0
      = Raised (ReadFailed ''./src/util.js'') (emit (OpenRead ''./src/util.js'') ?w0)"
    using f by (intro update_file_unreadable) simp
  have s: "abspath (cwd example_broken) project_root = ''/home/u/proj''"
    by code_simp
  have l: "log example_broken = []"
    by (simp add: example_broken_def example_world_def)
  have w: "emit (OpenRead ''./src/util.js'') ?w0
      = example_broken\<lparr>log := [Scanning ''/home/u/proj'', OpenRead ''./src/util.js'']\<rparr>"
    by (simp add: emit_def s l)
  have m: "files example_broken ''./src/app/main.ts'' = Some example_main_ts"
    by (simp add: example_broken_def example_world_def)
  from failure_stops_run [of "''./src/util.js''" "full_json_path example_broken" example_broken
      "[]" "[''./src/app/main.ts'']" ?w0 "ReadFailed ''./src/util.js''"
      "emit (OpenRead ''./src/util.js'') ?w0"] c a u
  have "main example_broken = Raised (ReadFailed ''./src/util.js'') (emit (OpenRead ''./src/util.js'') ?w0)"
    and "Complete \<notin> set (events_since example_broken (main example_broken))"
    by blast+
  with i c w m show ?thesis by simp
qed

section \<open>The structure printer (print\_structure.py)\<close>

text \<open>
  \<open>print_tree\<close> returns, in order, the texts it writes to the output file. The two
  drawing texts are given by their UTF-8 bytes: \<open>bar\<close> is a vertical line and three
  spaces, \<open>tee\<close> a branch, two dashes and a space.
\<close>

definition bar :: string where
  "bar = [CHR 0xE2, CHR 0x94, CHR 0x82] @ ''   ''"

definition tee :: string where
  "tee = [CHR 0xE2, CHR 0x94, CHR 0x9C, CHR 0xE2, CHR 0x94, CHR 0x80, CHR 0xE2, CHR 0x94, CHR 0x80] @ '' ''"

text \<open>\<^verbatim>\<open>depth = root[len(startpath):].count(os.sep)\<close>\<close>

definition count_sep :: "string \<Rightarrow> nat" where
  "count_sep s = length (filter (\<lambda>c. c = CHR ''/'') s)"

definition depth_of :: "string \<Rightarrow> string \<Rightarrow> nat" where
  "depth_of startpath root = count_sep (drop (length startpath) root)"

text \<open>The writes of the branch \<^verbatim>\<open>depth < max_depth\<close>: the directory, then its files.\<close>

definition entry_lines :: "string \<Rightarrow> string \<Rightarrow> string list \<Rightarrow> string list" where
  "entry_lines startpath root fnames =
     (let depth = depth_of startpath root;
          indent = concat (replicate depth bar) @ tee;
          subindent = concat (replicate (depth + 1) bar)
      in (indent @ basename root @ ''/'' @ [CHR 0x0A])
           # map (\<lambda>fname. subindent @ fname @ [CHR 0x0A]) fnames)"

text \<open>
  What the loop body leaves in \<open>dirs\<close>: untouched in the first branch, emptied
  (\<^verbatim>\<open>dirs[:] = []\<close>) in the other.
\<close>

definition prune :: "string \<Rightarrow> int \<Rightarrow> string \<Rightarrow> string list \<Rightarrow> string list" where
  "prune startpath max_depth root dirs =
     (if int (depth_of startpath root) < max_depth then dirs else [])"

definition print_tree :: "string \<Rightarrow> int \<Rightarrow> dirtree \<Rightarrow> string list" where
  "print_tree startpath max_depth t =
     concat (map (\<lambda>(root, dirs, fnames).
                    if int (depth_of startpath root) < max_depth
                    then entry_lines startpath root fnames
                    else [])
               (os_walk (prune startpath max_depth) startpath t))"

definition default_max_depth :: int where
  "default_max_depth = 6"

definition print_tree_default :: "string \<Rightarrow> dirtree \<Rightarrow> string list" where
  "print_tree_default startpath t = print_tree startpath default_max_depth t"

text \<open>
  The output described directory by directory: a directory whose depth is below
  \<open>max_depth\<close> gives its line, its files and then what its subdirectories give; any
  other directory gives nothing, and neither does anything below it.
\<close>

function tree_lines :: "string \<Rightarrow> int \<Rightarrow> string \<Rightarrow> dirtree \<Rightarrow> string list" where
  "tree_lines startpath max_depth root (Dir fnames subs) =
     (if int (depth_of startpath root) < max_depth
      then entry_lines startpath root fnames
             @ concat (map (\<lambda>name. case map_of subs name of
                                      None \<Rightarrow> []
                                    | Some t \<Rightarrow> tree_lines startpath max_depth (path_join root name) t)
                          (map fst subs))
      else [])"
  by pat_completeness auto
termination
  by (relation "measure (\<lambda>(startpath, max_depth, root, t). size t)") (auto dest: map_of_size)

declare tree_lines.simps [simp del]

lemma concat_map_concat:
  "concat (map f (concat xss)) = concat (map (\<lambda>xs. concat (map f xs)) xss)"
  by (induction xss) auto

lemma walk_lines:
  "concat (map (\<lambda>(root, dirs, fnames).
                    if int (depth_of sp root) < md then entry_lines sp root fnames else [])
               (os_walk (prune sp md) root t))
   = tree_lines sp md root t"
proof (induction sp md root t rule: tree_lines.induct)
  case (1 sp md root fnames subs)
  let ?body = "\<lambda>(root, dirs, fnames).
                    if int (depth_of sp root) < md then entry_lines sp root fnames else []"
  show ?case
  proof (cases "int (depth_of sp root) < md")
    case False
    then show ?thesis
      by (subst os_walk.simps, subst tree_lines.simps) (simp add: prune_def)
  next
    case True
    have "concat (map ?body (case map_of subs name of None \<Rightarrow> []
              | Some t \<Rightarrow> os_walk (prune sp md) (path_join root name) t))
        = (case map_of subs name of None \<Rightarrow> []
              | Some t \<Rightarrow> tree_lines sp md (path_join root name) t)"
      if "name \<in> set (map fst subs)" for name
    proof (cases "map_of subs name")
      case None
      then show ?thesis by simp
    next
      case (Some t)
      with "1.IH" [OF True that Some] show ?thesis by simp
    qed
    then have "concat (map (\<lambda>name. concat (map ?body (case map_of subs name of None \<Rightarrow> []
              | Some t \<Rightarrow> os_walk (prune sp md) (path_join root name) t))) (map fst subs))
        = concat (map (\<lambda>name. case map_of subs name of None \<Rightarrow> []
              | Some t \<Rightarrow> tree_lines sp md (path_join root name) t) (map fst subs))"
      by (intro arg_cong [where f = concat] map_cong) auto
    with True show ?thesis
      by (subst os_walk.simps, subst tree_lines.simps)
        (simp add: prune_def concat_map_concat comp_def)
  qed
qed

text \<open>The path \<open>os.walk\<close> builds for the directory reached through \<open>names\<close>.\<close>

fun descend :: "string \<Rightarrow> string list \<Rightarrow> string" where
  "descend root [] = root"
| "descend root (name # names) = descend (path_join root name) names"

lemma suffix_slash_iff: "suffix ''/'' s \<longleftrightarrow> s \<noteq> [] \<and> last s = CHR ''/''"
proof (cases s rule: rev_cases)
  case Nil
  then show ?thesis by simp
next
  case (snoc xs x)
  then show ?thesis by (auto simp: suffix_def)
qed

lemma descend_eq:
  assumes "root \<noteq> []" "\<not> suffix ''/'' root" "\<forall>n\<in>set names. n \<noteq> [] \<and> CHR ''/'' \<notin> set n"
  shows "descend root names = root @ concat (map (\<lambda>n. CHR ''/'' # n) names)"
  using assms
proof (induction names arbitrary: root)
  case Nil
  then show ?case by simp
next
  case (Cons n names)
  from Cons.prems have n: "n \<noteq> []" "CHR ''/'' \<notin> set n" by simp_all
  then have "hd n \<noteq> CHR ''/''" by (cases n) auto
  with n have "\<not> prefix ''/'' n" by (cases n) auto
  with Cons.prems have pj: "path_join root n = root @ CHR ''/'' # n"
    by (simp add: path_join_def)
  have "last n \<noteq> CHR ''/''" using n by (metis last_in_set)
  with n have "\<not> suffix ''/'' (root @ CHR ''/'' # n)"
    by (simp add: suffix_slash_iff)
  with Cons.IH [of "root @ CHR ''/'' # n"] Cons.prems show ?case
    by (simp add: pj)
qed

text \<open>
  The depth the script computes is the nesting level below \<open>startpath\<close> when
  \<open>startpath\<close> does not end in a separator; after a trailing separator the first level
  counts as depth 0 too.
\<close>

lemma depth_of_descend:
  assumes "startpath \<noteq> []" "\<not> suffix ''/'' startpath"
    "\<forall>n\<in>set names. n \<noteq> [] \<and> CHR ''/'' \<notin> set n"
  shows "depth_of startpath (descend startpath names) = length names"
proof -
  have "count_sep (concat (map (\<lambda>n. CHR ''/'' # n) names)) = length names"
    using assms(3)
  proof (induction names)
    case Nil
    show ?case by (simp add: count_sep_def)
  next
    case (Cons n names)
    then have "filter (\<lambda>c. c = CHR ''/'') n = []"
      by (auto simp: filter_empty_conv)
    moreover from Cons have "count_sep (concat (map (\<lambda>n. CHR ''/'' # n) names)) = length names"
      by simp
    ultimately show ?case by (simp add: count_sep_def)
  qed
  then show ?thesis
    by (simp add: depth_of_def descend_eq [OF assms])
qed

lemma depth_of_trailing_separator: "depth_of ''proj/'' (descend ''proj/'' [''a'']) = 0"
  by code_simp

text \<open>
  What \<open>print_tree\<close> writes is \<open>tree_lines\<close> of the start directory (with
  \<open>max_depth\<close> 6 by default): lines for the directories whose depth, as the script
  computes it from \<open>startpath\<close>, is below \<open>max_depth\<close>, each followed by its files;
  a directory whose computed depth is \<open>max_depth\<close> or more has its subdirectory list
  cleared and contributes no line, for itself, its files or anything below it.
\<close>

theorem print_tree_prunes_at_max_depth:
  "print_tree startpath max_depth t = tree_lines startpath max_depth startpath t
   \<and> print_tree_default startpath t = tree_lines startpath 6 startpath t
   \<and> (\<not> int (depth_of startpath root) < max_depth \<longrightarrow> tree_lines startpath max_depth root s = [])"
proof -
  have "tree_lines startpath max_depth root s = []" if "\<not> int (depth_of startpath root) < max_depth"
    using that by (cases s) (simp add: tree_lines.simps)
  then show ?thesis
    unfolding print_tree_default_def default_max_depth_def print_tree_def
    using walk_lines [of startpath max_depth startpath t] walk_lines [of startpath 6 startpath t]
    by simp
qed

theorem print_tree_prunes_at_max_depth_witness:
  "print_tree ''.'' 2 (tree example_world)
     = [tee @ ''./'' @ [CHR 0x0A],
        bar @ ''README.md'' @ [CHR 0x0A],
        bar @ tee @ ''src/'' @ [CHR 0x0A],
        bar @ bar @ ''util.js'' @ [CHR 0x0A]]
   \<and> depth_of ''.'' ''./src/app'' = 2
   \<and> tree_lines ''.'' 2 ''./src/app'' (Dir [''main.ts'', ''notes.txt''] []) = []"
proof -
  have l: "tree_lines ''.'' 2 ''.'' (tree example_world)
     = [tee @ ''./'' @ [CHR 0x0A],
        bar @ ''README.md'' @ [CHR 0x0A],
        bar @ tee @ ''src/'' @ [CHR 0x0A],
        bar @ bar @ ''util.js'' @ [CHR 0x0A]]"
    by code_simp
  have d: "depth_of ''.'' ''./src/app'' = 2"
    by code_simp
  from print_tree_prunes_at_max_depth
    [of "''.''" 2 "tree example_world" "''./src/app''" "Dir [''main.ts'', ''notes.txt''] []"] l d
  show ?thesis by simp
qed

text \<open>
  C10: the code departs from the claim when \<open>startpath\<close> ends in a separator. The
  script takes the depth of a directory to be the number of separators behind the first
  \<open>len(startpath)\<close> characters of its path. \<open>os.walk('proj/')\<close> reaches the
  subdirectory \<open>a\<close> as \<open>proj/a\<close>, where that count is 0, not 1: with \<open>max_depth\<close> 1
  the script writes a line for \<open>a\<close> and for the file inside it, and stops one level
  further down than the claim says. From \<open>proj\<close>, without the separator, the same tree
  gives the start directory and its file only.
\<close>

theorem print_tree_trailing_separator:
  "print_tree ''proj/'' 1
       (Dir [''top.txt''] [(''a'', Dir [''deep.txt''] [(''b'', Dir [''deeper.txt''] [])])])
     = [tee @ ''/'' @ [CHR 0x0A],
        bar @ ''top.txt'' @ [CHR 0x0A],
        tee @ ''a/'' @ [CHR 0x0A],
        bar @ ''deep.txt'' @ [CHR 0x0A]]
   \<and> depth_of ''proj/'' (path_join ''proj/'' ''a'') = 0
   \<and> print_tree ''proj'' 1
       (Dir [''top.txt''] [(''a'', Dir [''deep.txt''] [(''b'', Dir [''deeper.txt''] [])])])
     = [tee @ ''proj/'' @ [CHR 0x0A],
        bar @ ''top.txt'' @ [CHR 0x0A]]"
  by code_simp

section \<open>The replacement loop of \<open>update_file\<close>\<close>

subsection \<open>Where a match can start\<close>

definition starts_call :: "string \<Rightarrow> bool" where
  "starts_call s \<longleftrightarrow> (\<exists>k r. is_quote k \<and> s = require_open @ k # r)"


lemma non_quotes_require_open [simp]: "non_quotes require_open"
  by (simp add: require_open_def non_quotes_def is_quote_def)

lemma length_require_open [simp]: "length require_open = 8"
  by (simp add: require_open_def)

lemma non_quotes_drop: "non_quotes s \<Longrightarrow> non_quotes (drop d s)"
  by (auto simp: non_quotes_def list_all_iff dest: in_set_dropD)

lemma no_call_inside:
  assumes q: "is_quote q" "is_quote q'" and b: "non_quotes body"
    and nr: "\<And>i. drop i body \<noteq> require_open"
    and d: "0 < d" "d < length (require_open @ q # body @ [q', CHR '')''])"
  shows "\<not> starts_call (drop d (require_open @ q # body @ [q', CHR '')'']) @ r)"
proof
  assume "starts_call (drop d (require_open @ q # body @ [q', CHR '')'']) @ r)"
  then obtain k t where k: "is_quote k"
    and e: "drop d (require_open @ q # body @ [q', CHR '')'']) @ r = require_open @ k # t"
    by (auto simp: starts_call_def)
  consider (head) "d \<le> 8" | (body) "9 \<le> d" "d \<le> 9 + length body" | (last) "d = 10 + length body"
    using d(2) by force
  then show False
  proof cases
    case head
    then have "drop d (require_open @ q # body @ [q', CHR '')'']) @ r
        = drop d require_open @ q # (body @ [q', CHR '')''] @ r)"
      by simp
    with e have "drop d require_open @ q # (body @ [q', CHR '')''] @ r) = require_open @ k # t"
      by simp
    from first_quote_unique [OF _ _ q(1) k this]
    have "drop d require_open = require_open"
      by (simp add: non_quotes_drop)
    then have "length (drop d require_open) = length require_open" by simp
    with d(1) show False by simp
  next
    case body
    then have "drop d (require_open @ q # body @ [q', CHR '')'']) @ r
        = drop (d - 9) body @ q' # (CHR '')'' # r)"
      by (simp add: drop_Cons')
    with e have "drop (d - 9) body @ q' # (CHR '')'' # r) = require_open @ k # t"
      by simp
    from first_quote_unique [OF _ _ q(2) k this] b
    have "drop (d - 9) body = require_open"
      by (simp add: non_quotes_drop)
    with nr show False by blast
  next
    case last
    then have "drop d (require_open @ q # body @ [q', CHR '')'']) @ r = CHR '')'' # r"
      by (simp add: drop_Cons')
    with e show False by (simp add: require_open_def)
  qed
qed

lemma not_suffix_require_target: "\<not> suffix require_open target_filename"
  by code_simp

lemma suffix_short:
  assumes "suffix xs (ys @ zs)" "length xs \<le> length zs"
  shows "suffix xs zs"
  using assms by (auto simp: suffix_append)

lemma path_target_no_require: "drop i (p @ target_filename) \<noteq> require_open"
proof
  assume "drop i (p @ target_filename) = require_open"
  then have "suffix require_open (p @ target_filename)"
    by (metis suffix_drop)
  then have "suffix require_open target_filename"
    by (rule suffix_short) (simp add: target_filename_def)
  with not_suffix_require_target show False by blast
qed

lemma no_call_inside_match:
  assumes "match_text x" "0 < d" "d < length x"
  shows "\<not> starts_call (drop d x @ r)"
proof -
  from assms(1) obtain q1 p q2 where q: "is_quote q1" "non_quotes p" "is_quote q2"
    and x: "x = require_open @ q1 # (p @ target_filename) @ [q2, CHR '')'']"
    by (auto simp: match_text_def)
  have b: "non_quotes (p @ target_filename)" using q(2) by simp
  have d: "0 < d" "d < length (require_open @ q1 # (p @ target_filename) @ [q2, CHR '')''])"
    using assms(2,3) unfolding x by simp_all
  show ?thesis
    unfolding x by (rule no_call_inside [OF q(1) q(3) b path_target_no_require d])
qed

lemma no_straddle:
  assumes x: "match_text x" and uv: "x = u @ v" "u \<noteq> []" "v \<noteq> []"
    and v: "prefix v (require_open @ squote # z)"
  shows False
proof (cases "length v \<le> 8")
  case True
  from v have "prefix v require_open \<or> (\<exists>us. v = require_open @ us \<and> prefix us (squote # z))"
    by (simp add: prefix_append)
  with True have "prefix v require_open"
    by auto
  then have "set v \<subseteq> set require_open" by (rule set_mono_prefix)
  moreover have "last v = last x" using uv by simp
  moreover have "last x = CHR '')''" using x by (auto simp: match_text_def)
  ultimately have "CHR '')'' \<in> set require_open"
    using uv(3) last_in_set [of v] by auto
  then show False by (simp add: require_open_def)
next
  case False
  from v have "prefix v require_open \<or> (\<exists>us. v = require_open @ us \<and> prefix us (squote # z))"
    by (simp add: prefix_append)
  moreover have "\<not> prefix v require_open"
    using False prefix_length_le [of v require_open] by auto
  ultimately obtain us where us: "v = require_open @ us" "prefix us (squote # z)"
    by blast
  with False have "us \<noteq> []" by auto
  with us(2) obtain w where "us = squote # w"
    by (cases us) auto
  with us(1) have "v = require_open @ squote # w" by simp
  then have "starts_call (drop (length u) x @ [])"
    by (auto simp: uv starts_call_def is_quote_def)
  moreover have "0 < length u" "length u < length x" using uv by simp_all
  ultimately show False
    using no_call_inside_match [OF x] by blast
qed

subsection \<open>Replacing every match in one pass\<close>

































subsection \<open>The replacement given to each match\<close>








section \<open>Running the rewriter twice\<close>

subsection \<open>Line endings written and read back\<close>









subsection \<open>A file that a further call leaves as it is\<close>



lemma update_file_cases [case_names unreadable nomatch match]:
  obtains "files w p = None \<or> (\<exists>f. files w p = Some f \<and> \<not> readable f)"
  | g where "files w p = Some g" "readable g" "finditer (read_text g) = []"
  | g rel where "files w p = Some g" "readable g" "finditer (read_text g) \<noteq> []"
      "calculate_relative_path (cwd w) p t = Inr rel"
proof -
  obtain rel where "calculate_relative_path (cwd w) p t = Inr rel"
    by (rule calculate_relative_path_returns)
  with that show ?thesis by (cases "files w p") auto
qed


lemma update_file_other:
  assumes "q \<noteq> p"
  shows "files (world_of (update_file p t w)) q = files w q"
proof -
  from update_file_step [of p w t] obtain es
    where "step_ok [p] w (world_of (update_file p t w)) es" by blast
  with assms show ?thesis by (simp add: step_ok_def)
qed








text \<open>A file that can be read and written is processed without a failure.\<close>

definition usable :: "world \<Rightarrow> string \<Rightarrow> bool" where
  "usable w p \<longleftrightarrow> (\<exists>f. files w p = Some f \<and> readable f \<and> writable f)"

lemma usable_returns: "usable w p \<Longrightarrow> is_returned (update_file p t w)"
  using update_file_raises_iff [of p t w] by (auto simp: usable_def io_fails_def)

lemma usable_kept:
  assumes "usable w q"
  shows "usable (world_of (update_file p t w)) q"
proof (cases "q = p")
  case False
  with assms show ?thesis by (simp add: usable_def update_file_other)
next
  case True
  show ?thesis
  proof (cases rule: update_file_cases [where w=w and p=p and t=t])
    case unreadable
    with assms True show ?thesis by (auto simp: usable_def)
  next
    case (nomatch g)
    with assms True show ?thesis by (simp add: usable_def update_file_no_match)
  next
    case (match g rel)
    with assms True show ?thesis by (simp add: usable_def update_file_match Let_def)
  qed
qed

lemma update_all_returns:
  "\<forall>p\<in>set ps. usable w p \<Longrightarrow> is_returned (update_all t ps w)"
proof (induction ps arbitrary: w)
  case Nil
  show ?case by simp
next
  case (Cons p ps)
  from Cons.prems have "is_returned (update_file p t w)" by (simp add: usable_returns)
  then obtain w' where u: "update_file p t w = Returned () w'"
    by (cases "update_file p t w") auto
  have "\<forall>q\<in>set ps. usable w' q"
    using usable_kept [of w _ p t] Cons.prems by (simp add: u)
  from Cons.IH [OF this] show ?case by (simp add: u)
qed

lemma scan_returns:
  assumes "\<forall>p\<in>set (candidates base_dir (tree w)). usable w p"
  shows "is_returned (scan_and_update_files base_dir t w)"
  unfolding scan_eq
  by (rule update_all_returns) (use assms in \<open>simp add: usable_def\<close>)


subsection \<open>The second run\<close>








end
